theory Spec2Isabelle
  imports Main "HOL-Library.Word" "HOL-Library.Sublist" "HOL-Library.AList"
begin

unbundle bit_operations_syntax

section \<open>The content-catalog build step (scripts/load-content.cjs)\<close>

text \<open>
  The script scans \<^verbatim>\<open><repo>/content\<close>, fingerprints every file with a truncated MD5 hex
  digest, copies it to \<^verbatim>\<open><repo>/public/content\<close> under a name that embeds the fingerprint
  and writes the map from original path to published URL as JSON.

  Conventions of the embedding:
  \<^item> JavaScript strings and file contents are \<open>char list\<close>; a character is one byte.
    A string is kept in UTF-8; the script splits and joins strings at \<^verbatim>\<open>/\<close> and \<^verbatim>\<open>.\<close> only,
    which UTF-8 leaves in place. A file name is a byte string; Node decodes it where a
    directory is listed.
  \<^item> The host is POSIX: \<^verbatim>\<open>path.sep\<close> is \<^verbatim>\<open>/\<close> and \<^verbatim>\<open>path.join\<close> is \<^verbatim>\<open>path.posix.join\<close>.
  \<^item> The file system is an explicit state; an exception is the \<open>Inl\<close> of a sum.
  \<^item> The functions of Node (\<^verbatim>\<open>path\<close>, \<^verbatim>\<open>crypto\<close>, \<^verbatim>\<open>fs\<close>), \<^verbatim>\<open>fs-extra\<close> and
    \<^verbatim>\<open>fast-glob\<close> are libraries outside the repository; they are modelled from their
    documented behaviour, the functions of the script from its text.
\<close>

subsection \<open>JavaScript strings\<close>

type_synonym bytes = "char list"

text \<open>\<^verbatim>\<open>s.split(c)\<close> for a one-character separator: never empty, \<^verbatim>\<open>"".split("/")\<close> is \<^verbatim>\<open>[""]\<close>.\<close>

fun js_split :: "char \<Rightarrow> string \<Rightarrow> string list" where
  "js_split c [] = [[]]"
| "js_split c (x # xs) =
     (if x = c then [] # js_split c xs
      else (case js_split c xs of [] \<Rightarrow> [[x]] | y # ys \<Rightarrow> (x # y) # ys))"

text \<open>\<^verbatim>\<open>xs.join(sep)\<close>.\<close>

fun js_join :: "string \<Rightarrow> string list \<Rightarrow> string" where
  "js_join sep [] = []"
| "js_join sep [x] = x"
| "js_join sep (x # y # ys) = x @ sep @ js_join sep (y # ys)"

subsection \<open>Node's \<^verbatim>\<open>path.posix\<close>\<close>

text \<open>
  \<^verbatim>\<open>normalizeString\<close>: empty and \<^verbatim>\<open>.\<close> segments are dropped, \<^verbatim>\<open>..\<close> removes the
  segment before it unless there is none (or it is \<^verbatim>\<open>..\<close> itself); then it is kept
  when \<open>allowAboveRoot\<close> holds and dropped otherwise.
\<close>

fun normalizeString :: "bool \<Rightarrow> string list \<Rightarrow> string list \<Rightarrow> string list" where
  "normalizeString allowAboveRoot res [] = res"
| "normalizeString allowAboveRoot res (s # ss) =
     (if s = [] \<or> s = ''.'' then normalizeString allowAboveRoot res ss
      else if s = ''..'' then
        (if res \<noteq> [] \<and> last res \<noteq> ''..'' then normalizeString allowAboveRoot (butlast res) ss
         else if allowAboveRoot then normalizeString allowAboveRoot (res @ [''..'']) ss
         else normalizeString allowAboveRoot res ss)
      else normalizeString allowAboveRoot (res @ [s]) ss)"

definition isAbsolute :: "string \<Rightarrow> bool" where
  "isAbsolute p = (case p of [] \<Rightarrow> False | c # _ \<Rightarrow> c = CHR ''/'')"

definition trailingSeparator :: "string \<Rightarrow> bool" where
  "trailingSeparator p = (p \<noteq> [] \<and> last p = CHR ''/'')"

definition posix_normalize :: "string \<Rightarrow> string" where
  "posix_normalize p =
     (if p = [] then ''.''
      else
        let r = js_join ''/'' (normalizeString (\<not> isAbsolute p) [] (js_split (CHR ''/'') p)) in
        if r = [] then
          (if isAbsolute p then ''/'' else if trailingSeparator p then ''./'' else ''.'')
        else (if isAbsolute p then ''/'' else []) @ r @
             (if trailingSeparator p then ''/'' else []))"

text \<open>\<^verbatim>\<open>path.posix.join(...args)\<close>: the non-empty arguments joined by \<^verbatim>\<open>/\<close>, normalized.\<close>

definition posix_join :: "string list \<Rightarrow> string" where
  "posix_join args =
     (let parts = filter (\<lambda>a. a \<noteq> []) args in
      if parts = [] then ''.'' else posix_normalize (js_join ''/'' parts))"

text \<open>
  \<^verbatim>\<open>path.resolve(a, b)\<close> for an absolute \<open>a\<close> (the script passes \<^verbatim>\<open>__dirname\<close>, which Node
  always gives as an absolute path; the working directory, which \<^verbatim>\<open>resolve\<close> consults for
  a relative \<open>a\<close>, is not modelled).
\<close>

definition path_resolve :: "string \<Rightarrow> string \<Rightarrow> string" where
  "path_resolve a b =
     (let joined = (if isAbsolute b then b else if b = [] then a else a @ ''/'' @ b) in
      ''/'' @ js_join ''/'' (normalizeString False [] (js_split (CHR ''/'') joined)))"

text \<open>
  \<^verbatim>\<open>path.dirname\<close>: Node scans from the last character down to index 1, skipping
  trailing slashes, and cuts at the first slash after a non-slash.
\<close>

fun dirname_end :: "bool \<Rightarrow> nat \<Rightarrow> string \<Rightarrow> nat option" where
  "dirname_end matchedSlash i [] = None"
| "dirname_end matchedSlash i (c # cs) =
     (if i = 0 then None
      else if c = CHR ''/'' then
        (if \<not> matchedSlash then Some i else dirname_end matchedSlash (i - 1) cs)
      else dirname_end False (i - 1) cs)"

definition path_dirname :: "string \<Rightarrow> string" where
  "path_dirname p =
     (if p = [] then ''.''
      else case dirname_end True (length p - 1) (rev p) of
        None \<Rightarrow> (if isAbsolute p then ''/'' else ''.'')
      | Some e \<Rightarrow> (if isAbsolute p \<and> e = 1 then ''//'' else take e p))"

text \<open>The last portion of a path, trailing slashes ignored (\<^verbatim>\<open>path.basename(p)\<close>).\<close>

definition strip_slashes :: "string \<Rightarrow> string" where
  "strip_slashes p = rev (dropWhile (\<lambda>c. c = CHR ''/'') (rev p))"

definition last_portion :: "string \<Rightarrow> string" where
  "last_portion p = last (js_split (CHR ''/'') (strip_slashes p))"

text \<open>
  \<^verbatim>\<open>path.extname\<close>: from the last \<^verbatim>\<open>.\<close> of the last portion to its end; empty when there
  is no dot, when the only dot is the portion's first character, or when the portion is
  \<^verbatim>\<open>..\<close>.
\<close>

definition last_dot :: "string \<Rightarrow> nat option" where
  "last_dot b =
     (if CHR ''.'' \<in> set b
      then Some (length b - 1 - length (takeWhile (\<lambda>c. c \<noteq> CHR ''.'') (rev b)))
      else None)"

definition ext_of :: "string \<Rightarrow> string" where
  "ext_of b =
     (case last_dot b of
        None \<Rightarrow> []
      | Some k \<Rightarrow> (if k = 0 \<or> b = ''..'' then [] else drop k b))"

definition path_extname :: "string \<Rightarrow> string" where
  "path_extname p = ext_of (last_portion p)"

text \<open>
  \<^verbatim>\<open>path.basename(p, suffix)\<close>: the last portion without \<open>suffix\<close> when the portion ends
  with it and is longer than it. Node's loop has three more outcomes, kept here: the
  empty string when \<open>suffix\<close> is the whole path; the portion unchanged when it does not
  end with \<open>suffix\<close> or equals it; and, when the portion is a proper end of \<open>suffix\<close>, the
  portion together with the slashes that follow it.
\<close>

definition path_basename :: "string \<Rightarrow> string \<Rightarrow> string" where
  "path_basename p sfx =
     (let b = last_portion p in
      if sfx = [] \<or> length p < length sfx then b
      else if sfx = p then []
      else if length b < length sfx then
        (if suffix b sfx then b @ drop (length (strip_slashes p)) p else b)
      else if suffix sfx b \<and> b \<noteq> sfx then take (length b - length sfx) b
      else b)"

subsection \<open>Node's \<^verbatim>\<open>crypto.createHash('md5')\<close>: MD5 (RFC 1321)\<close>

definition md5_K :: "32 word list" where
  "md5_K =
    [0xd76aa478, 0xe8c7b756, 0x242070db, 0xc1bdceee,
     0xf57c0faf, 0x4787c62a, 0xa8304613, 0xfd469501,
     0x698098d8, 0x8b44f7af, 0xffff5bb1, 0x895cd7be,
     0x6b901122, 0xfd987193, 0xa679438e, 0x49b40821,
     0xf61e2562, 0xc040b340, 0x265e5a51, 0xe9b6c7aa,
     0xd62f105d, 0x02441453, 0xd8a1e681, 0xe7d3fbc8,
     0x21e1cde6, 0xc33707d6, 0xf4d50d87, 0x455a14ed,
     0xa9e3e905, 0xfcefa3f8, 0x676f02d9, 0x8d2a4c8a,
     0xfffa3942, 0x8771f681, 0x6d9d6122, 0xfde5380c,
     0xa4beea44, 0x4bdecfa9, 0xf6bb4b60, 0xbebfbc70,
     0x289b7ec6, 0xeaa127fa, 0xd4ef3085, 0x04881d05,
     0xd9d4d039, 0xe6db99e5, 0x1fa27cf8, 0xc4ac5665,
     0xf4292244, 0x432aff97, 0xab9423a7, 0xfc93a039,
     0x655b59c3, 0x8f0ccc92, 0xffeff47d, 0x85845dd1,
     0x6fa87e4f, 0xfe2ce6e0, 0xa3014314, 0x4e0811a1,
     0xf7537e82, 0xbd3af235, 0x2ad7d2bb, 0xeb86d391]"

definition md5_s :: "nat list" where
  "md5_s =
    [7, 12, 17, 22, 7, 12, 17, 22, 7, 12, 17, 22, 7, 12, 17, 22,
     5, 9, 14, 20, 5, 9, 14, 20, 5, 9, 14, 20, 5, 9, 14, 20,
     4, 11, 16, 23, 4, 11, 16, 23, 4, 11, 16, 23, 4, 11, 16, 23,
     6, 10, 15, 21, 6, 10, 15, 21, 6, 10, 15, 21, 6, 10, 15, 21]"

text \<open>Padding: a 1 bit, zeros up to 56 modulo 64 bytes, the bit length in 64 bits.\<close>

definition md5_pad :: "bytes \<Rightarrow> 8 word list" where
  "md5_pad bs =
     (let n = length bs; bits = (of_nat n * 8 :: 64 word) in
      map of_char bs @ [0x80] @ replicate ((119 - n mod 64) mod 64) 0 @
      map (\<lambda>i. ucast (drop_bit (8 * i) bits)) [0..<8])"

fun le_words :: "8 word list \<Rightarrow> 32 word list" where
  "le_words (a # b # c # d # rest) =
     (ucast a OR push_bit 8 (ucast b) OR push_bit 16 (ucast c) OR push_bit 24 (ucast d))
       # le_words rest"
| "le_words _ = []"

fun chunks :: "'a list \<Rightarrow> 'a list list" where
  "chunks [] = []"
| "chunks (x # xs) = take 16 (x # xs) # chunks (drop 16 (x # xs))"

type_synonym md5_state = "32 word \<times> 32 word \<times> 32 word \<times> 32 word"

definition md5_step :: "32 word list \<Rightarrow> md5_state \<Rightarrow> nat \<Rightarrow> md5_state" where
  "md5_step M st i =
     (case st of (A, B, C, D) \<Rightarrow>
       let (F, g) =
             (if i < 16 then ((B AND C) OR (NOT B AND D), i)
              else if i < 32 then ((D AND B) OR (NOT D AND C), (5 * i + 1) mod 16)
              else if i < 48 then (B XOR C XOR D, (3 * i + 5) mod 16)
              else (C XOR (B OR NOT D), (7 * i) mod 16));
           F' = F + A + md5_K ! i + M ! g
       in (D, B + word_rotl (md5_s ! i) F', B, C))"

definition md5_chunk :: "md5_state \<Rightarrow> 32 word list \<Rightarrow> md5_state" where
  "md5_chunk st M =
     (case st of (a0, b0, c0, d0) \<Rightarrow>
        (case foldl (md5_step M) st [0..<64] of (A, B, C, D) \<Rightarrow>
           (a0 + A, b0 + B, c0 + C, d0 + D)))"

definition hex_chars :: string where
  "hex_chars = ''0123456789abcdef''"

definition hex_digit :: "nat \<Rightarrow> char" where
  "hex_digit n = hex_chars ! (n mod 16)"

definition hex_byte :: "8 word \<Rightarrow> string" where
  "hex_byte b = [hex_digit (unat (drop_bit 4 b)), hex_digit (unat (b AND 15))]"

definition hex_word_le :: "32 word \<Rightarrow> string" where
  "hex_word_le w = concat (map (\<lambda>i. hex_byte (ucast (drop_bit (8 * i) w))) [0..<4])"

text \<open>\<^verbatim>\<open>crypto.createHash('md5').update(buffer).digest('hex')\<close>.\<close>

definition md5_hex :: "bytes \<Rightarrow> string" where
  "md5_hex bs =
     (case foldl md5_chunk (0x67452301, 0xefcdab89, 0x98badcfe, 0x10325476)
             (chunks (le_words (md5_pad bs))) of
        (a, b, c, d) \<Rightarrow> hex_word_le a @ hex_word_le b @ hex_word_le c @ hex_word_le d)"

subsection \<open>The catalog: a JavaScript object used as a dictionary\<close>

text \<open>
  An ordinary object created by \<^verbatim>\<open>{}\<close>, holding string values: its own properties in
  creation order. \<^verbatim>\<open>catalog[k] = v\<close> replaces the value of an own property in place and
  appends a new property otherwise. The one key that behaves differently is
  \<^verbatim>\<open>__proto__\<close>: the object inherits it from \<^verbatim>\<open>Object.prototype\<close> as an accessor, so the
  assignment calls its setter, and the setter ignores a value that is neither an object
  nor \<^verbatim>\<open>null\<close>. Every other inherited property is a writable data property, for which
  the assignment creates an own property as usual.
\<close>

type_synonym obj = "(string \<times> string) list"

definition obj_set :: "obj \<Rightarrow> string \<Rightarrow> string \<Rightarrow> obj" where
  "obj_set ob k v = (if k = ''__proto__'' then ob else AList.update k v ob)"

definition obj_get :: "obj \<Rightarrow> string \<Rightarrow> string option" where
  "obj_get ob k = map_of ob k"

text \<open>
  The order in which \<^verbatim>\<open>Object.keys\<close> and \<^verbatim>\<open>JSON.stringify\<close> visit the properties: array
  indices (canonical decimal numerals below \<open>2^32 - 1\<close>) in ascending order first, then
  the other keys in creation order.
\<close>

definition is_digit :: "char \<Rightarrow> bool" where
  "is_digit c = (48 \<le> (of_char c :: nat) \<and> (of_char c :: nat) \<le> 57)"

definition dec_value :: "string \<Rightarrow> int" where
  "dec_value s = foldl (\<lambda>a c. 10 * a + (int (of_char c) - 48)) 0 s"

definition is_array_index :: "string \<Rightarrow> bool" where
  "is_array_index k =
     (k \<noteq> [] \<and> list_all is_digit k \<and> (hd k \<noteq> CHR ''0'' \<or> k = ''0'') \<and>
      length k \<le> 10 \<and> dec_value k < 4294967295)"

definition own_entries :: "obj \<Rightarrow> (string \<times> string) list" where
  "own_entries ob =
     sort_key (\<lambda>kv. dec_value (fst kv)) (filter (\<lambda>kv. is_array_index (fst kv)) ob) @
     filter (\<lambda>kv. \<not> is_array_index (fst kv)) ob"

definition object_keys :: "obj \<Rightarrow> string list" where
  "object_keys ob = map fst (own_entries ob)"

text \<open>\<^verbatim>\<open>JSON.stringify\<close> of a string: the quoted string with its escapes.\<close>

definition json_escape :: "char \<Rightarrow> string" where
  "json_escape c =
     (if c = CHR 0x22 then [CHR 0x5C, CHR 0x22]
      else if c = CHR 0x5C then [CHR 0x5C, CHR 0x5C]
      else if c = CHR 0x08 then [CHR 0x5C, CHR ''b'']
      else if c = CHR 0x0C then [CHR 0x5C, CHR ''f'']
      else if c = CHR 0x0A then [CHR 0x5C, CHR ''n'']
      else if c = CHR 0x0D then [CHR 0x5C, CHR ''r'']
      else if c = CHR 0x09 then [CHR 0x5C, CHR ''t'']
      else if (of_char c :: nat) < 32 then [CHR 0x5C] @ ''u00'' @ hex_byte (of_char c)
      else [c])"

definition json_quote :: "string \<Rightarrow> string" where
  "json_quote s = [CHR 0x22] @ concat (map json_escape s) @ [CHR 0x22]"

text \<open>\<^verbatim>\<open>JSON.stringify(ob, null, 2)\<close> for an object of strings.\<close>

definition json_stringify :: "obj \<Rightarrow> string" where
  "json_stringify ob =
     (if own_entries ob = [] then ''{}''
      else ''{'' @ [CHR 0x0A] @
           js_join ('','' @ [CHR 0x0A])
             (map (\<lambda>kv. ''  '' @ json_quote (fst kv) @ '': '' @ json_quote (snd kv))
                (own_entries ob)) @
           [CHR 0x0A] @ ''}'')"

subsection \<open>The file system\<close>

text \<open>
  A file system maps the segments of an absolute path to a directory or to a regular file
  with its bytes and whether the process may read it. The list order stands for the order
  in which a directory listing returns the entries. Symbolic links, write permissions and
  relative paths are not modelled: every path the script passes to the file system is
  built by \<^verbatim>\<open>path.join\<close> from an absolute one, so it is absolute and free of \<^verbatim>\<open>.\<close> and
  \<^verbatim>\<open>..\<close> segments.
\<close>

datatype node = File bytes bool | Dir

type_synonym fs = "(string list \<times> node) list"

datatype error =
    ENOENT | ENOTDIR | EISDIR | EACCES | EEXIST
  | ERR_SAME_FILE | ERR_DIR_BY_NON_DIR | ERR_NON_DIR_BY_DIR | ERR_SUBDIR_OF_SELF
  | ERR_DIR_SOURCE

definition segments :: "string \<Rightarrow> string list" where
  "segments p = filter (\<lambda>s. s \<noteq> []) (js_split (CHR ''/'') p)"

text \<open>Path resolution: every component before the last must be a directory.\<close>

fun walk :: "fs \<Rightarrow> string list \<Rightarrow> string list \<Rightarrow> error + node" where
  "walk fs cur [] = (case map_of fs cur of None \<Rightarrow> Inl ENOENT | Some n \<Rightarrow> Inr n)"
| "walk fs cur (s # ss) =
     (case map_of fs cur of
        None \<Rightarrow> Inl ENOENT
      | Some Dir \<Rightarrow> walk fs (cur @ [s]) ss
      | Some (File _ _) \<Rightarrow> Inl ENOTDIR)"

definition statSync :: "fs \<Rightarrow> string \<Rightarrow> error + node" where
  "statSync fs p =
     (case walk fs [] (segments p) of
        Inr (File b r) \<Rightarrow> (if trailingSeparator p then Inl ENOTDIR else Inr (File b r))
      | other \<Rightarrow> other)"

definition existsSync :: "fs \<Rightarrow> string \<Rightarrow> bool" where
  "existsSync fs p = (case statSync fs p of Inl _ \<Rightarrow> False | Inr _ \<Rightarrow> True)"

definition readFileSync :: "fs \<Rightarrow> string \<Rightarrow> error + bytes" where
  "readFileSync fs p =
     (case statSync fs p of
        Inl e \<Rightarrow> Inl e
      | Inr Dir \<Rightarrow> Inl EISDIR
      | Inr (File b r) \<Rightarrow> (if r then Inr b else Inl EACCES))"

text \<open>
  An operation that writes returns the new file system; when it throws, the error comes
  with the file system as it is at that moment.
\<close>

text \<open>\<^verbatim>\<open>fs.removeSync\<close> (\<^verbatim>\<open>rm -rf\<close>): the node and all below it; a missing path is no error.\<close>

definition removeSync :: "fs \<Rightarrow> string \<Rightarrow> fs" where
  "removeSync fs p = filter (\<lambda>kn. \<not> prefix (segments p) (fst kn)) fs"

text \<open>\<^verbatim>\<open>fs.ensureDirSync\<close>, an alias of \<^verbatim>\<open>mkdirsSync\<close> (\<^verbatim>\<open>mkdir -p\<close>).\<close>

fun make_dirs :: "fs \<Rightarrow> string list \<Rightarrow> string list \<Rightarrow> (error \<times> fs) + fs" where
  "make_dirs fs cur [] = Inr fs"
| "make_dirs fs cur (s # ss) =
     (case map_of fs (cur @ [s]) of
        None \<Rightarrow> make_dirs (fs @ [(cur @ [s], Dir)]) (cur @ [s]) ss
      | Some Dir \<Rightarrow> make_dirs fs (cur @ [s]) ss
      | Some (File _ _) \<Rightarrow> Inl (if ss = [] then EEXIST else ENOTDIR, fs))"

definition ensureDirSync :: "fs \<Rightarrow> string \<Rightarrow> (error \<times> fs) + fs" where
  "ensureDirSync fs p = make_dirs fs [] (segments p)"

text \<open>
  \<^verbatim>\<open>fs.copySync(src, dest)\<close> of fs-extra with its default options (\<^verbatim>\<open>overwrite: true\<close>):
  both paths are checked, the parent directory of \<open>dest\<close> is created when it is missing,
  and a file is copied over whatever file is at \<open>dest\<close>. The script calls it only with a
  \<open>src\<close> it has just read as a file; the recursive copy of a directory is not modelled
  and is the error \<open>ERR_DIR_SOURCE\<close> here.
\<close>

definition copySync :: "fs \<Rightarrow> string \<Rightarrow> string \<Rightarrow> (error \<times> fs) + fs" where
  "copySync fs src dest =
     (case statSync fs src of
        Inl e \<Rightarrow> Inl (e, fs)
      | Inr srcStat \<Rightarrow>
         (case statSync fs dest of
            Inl e \<Rightarrow>
              (if e \<noteq> ENOENT then Inl (e, fs)
               else if srcStat = Dir \<and> strict_prefix (segments src) (segments dest)
                 then Inl (ERR_SUBDIR_OF_SELF, fs)
               else (case srcStat of
                  Dir \<Rightarrow> Inl (ERR_DIR_SOURCE, fs)
                | File b r \<Rightarrow>
                   (case (if existsSync fs (path_dirname dest) then Inr fs
                          else ensureDirSync fs (path_dirname dest)) of
                      Inl x \<Rightarrow> Inl x
                    | Inr fs1 \<Rightarrow>
                       (if r then Inr (AList.update (segments dest) (File b r) fs1)
                        else Inl (EACCES, fs1)))))
          | Inr destStat \<Rightarrow>
              (if segments src = segments dest then Inl (ERR_SAME_FILE, fs)
               else if srcStat = Dir \<and> destStat \<noteq> Dir then Inl (ERR_NON_DIR_BY_DIR, fs)
               else if srcStat \<noteq> Dir \<and> destStat = Dir then Inl (ERR_DIR_BY_NON_DIR, fs)
               else if srcStat = Dir \<and> strict_prefix (segments src) (segments dest)
                 then Inl (ERR_SUBDIR_OF_SELF, fs)
               else (case srcStat of
                  Dir \<Rightarrow> Inl (ERR_DIR_SOURCE, fs)
                | File b r \<Rightarrow>
                   (if r then Inr (AList.update (segments dest) (File b r) fs)
                    else Inl (EACCES, fs))))))"

text \<open>
  \<^verbatim>\<open>fs.writeFileSync\<close>: the directory of the file must exist; an existing file is
  replaced as a whole.
\<close>

definition writeFileSync :: "fs \<Rightarrow> string \<Rightarrow> bytes \<Rightarrow> (error \<times> fs) + fs" where
  "writeFileSync fs p data =
     (case statSync fs p of
        Inr Dir \<Rightarrow> Inl (EISDIR, fs)
      | Inr (File b r) \<Rightarrow> Inr (AList.update (segments p) (File data r) fs)
      | Inl e \<Rightarrow>
         (if e \<noteq> ENOENT then Inl (e, fs)
          else if trailingSeparator p then Inl (EISDIR, fs)
          else (case walk fs [] (butlast (segments p)) of
             Inr Dir \<Rightarrow> Inr (AList.update (segments p) (File data True) fs)
           | Inr (File _ _) \<Rightarrow> Inl (ENOTDIR, fs)
           | Inl e' \<Rightarrow> Inl (e', fs))))"

text \<open>\<^verbatim>\<open>fs.writeJsonSync(file, ob, {spaces: 2})\<close>: the JSON text and a final newline.\<close>

definition writeJsonSync :: "fs \<Rightarrow> string \<Rightarrow> obj \<Rightarrow> (error \<times> fs) + fs" where
  "writeJsonSync fs file ob = writeFileSync fs file (json_stringify ob @ [CHR 0x0A])"

text \<open>
  Node hands the name of a directory entry to the script as a string: the bytes of the
  name are decoded as UTF-8, and every maximal part that is not well-formed UTF-8 becomes
  the replacement character U+FFFD. Strings are kept in UTF-8 here, so a decoded name is
  the name itself when it is well-formed, and has the bytes \<^verbatim>\<open>EF BF BD\<close> in the place of
  each ill-formed part otherwise. \<open>utf8_tail\<close> gives, for a lead byte, the number of
  continuation bytes and the range of the first one; \<open>utf8_cont\<close> counts the
  continuation bytes that are there.
\<close>

definition utf8_tail :: "nat \<Rightarrow> (nat \<times> nat \<times> nat) option" where
  "utf8_tail b =
     (if 0xC2 \<le> b \<and> b \<le> 0xDF then Some (1, 0x80, 0xBF)
      else if b = 0xE0 then Some (2, 0xA0, 0xBF)
      else if b = 0xED then Some (2, 0x80, 0x9F)
      else if 0xE1 \<le> b \<and> b \<le> 0xEF then Some (2, 0x80, 0xBF)
      else if b = 0xF0 then Some (3, 0x90, 0xBF)
      else if 0xF1 \<le> b \<and> b \<le> 0xF3 then Some (3, 0x80, 0xBF)
      else if b = 0xF4 then Some (3, 0x80, 0x8F)
      else None)"

fun utf8_cont :: "nat \<Rightarrow> nat \<Rightarrow> nat \<Rightarrow> string \<Rightarrow> nat" where
  "utf8_cont 0 lo hi cs = 0"
| "utf8_cont (Suc k) lo hi [] = 0"
| "utf8_cont (Suc k) lo hi (c # cs) =
     (if lo \<le> (of_char c :: nat) \<and> (of_char c :: nat) \<le> hi
      then Suc (utf8_cont k 0x80 0xBF cs) else 0)"

function utf8_decode :: "string \<Rightarrow> string" where
  "utf8_decode [] = []"
| "utf8_decode (c # cs) =
     (if (of_char c :: nat) < 0x80 then c # utf8_decode cs
      else (case utf8_tail (of_char c) of
              None \<Rightarrow> [CHR 0xEF, CHR 0xBF, CHR 0xBD] @ utf8_decode cs
            | Some (need, lo, hi) \<Rightarrow>
                (if utf8_cont need lo hi cs = need
                 then c # take need cs @ utf8_decode (drop need cs)
                 else [CHR 0xEF, CHR 0xBF, CHR 0xBD] @
                      utf8_decode (drop (utf8_cont need lo hi cs) cs))))"
  by pat_completeness auto
termination
  by (relation "measure length") auto

text \<open>
  \<^verbatim>\<open>fs.readdirSync(d, {withFileTypes: true})\<close>: the entries of the directory \<open>d\<close> in
  listing order, each with its decoded name and its kind.
\<close>

definition readdirSync :: "fs \<Rightarrow> string list \<Rightarrow> error + (string \<times> node) list" where
  "readdirSync fs d =
     (case walk fs [] d of
        Inl e \<Rightarrow> Inl e
      | Inr (File _ _) \<Rightarrow> Inl ENOTDIR
      | Inr Dir \<Rightarrow>
          Inr (map (\<lambda>kn. (utf8_decode (last (fst kn)), snd kn))
                 (filter (\<lambda>kn. fst kn \<noteq> [] \<and> butlast (fst kn) = d) fs)))"

text \<open>
  \<^verbatim>\<open>fg.sync('**/*', {cwd, onlyFiles: true, dot})\<close> of fast-glob. It reads \<open>cwd\<close>, then
  the directories found there, then the directories found in those, and so on (a queue
  of directories, so the tree is read level by level). A directory is read under the
  path made of the decoded names. A directory that is missing is passed over, \<open>cwd\<close>
  too: \<open>ENOENT\<close> is the one error fast-glob suppresses, any other error is thrown.

  An entry is returned when it is a regular file and its path relative to \<open>cwd\<close>, with
  \<^verbatim>\<open>/\<close> between the segments, matches the regular expression of the pattern. Without
  \<open>dot\<close>, no segment of the path may start with a dot. The expression matches the
  directories of the path and the first character of the file name with \<^verbatim>\<open>.\<close>, which
  matches no line terminator (LF, CR, U+2028, U+2029): a path with a line terminator in
  a directory name or at the start of the file name is not returned. A path is returned
  once (\<^verbatim>\<open>unique\<close>). The files of a directory come in the order of its listing;
  fast-glob promises no order.
\<close>

definition hidden :: "string \<Rightarrow> bool" where
  "hidden s = (case s of [] \<Rightarrow> False | c # _ \<Rightarrow> c = CHR ''.'')"

fun line_break_at :: "string \<Rightarrow> bool" where
  "line_break_at [] = False"
| "line_break_at (c # cs) =
     (c = CHR 0x0A \<or> c = CHR 0x0D \<or>
      (c = CHR 0xE2 \<and> (take 2 cs = [CHR 0x80, CHR 0xA8] \<or> take 2 cs = [CHR 0x80, CHR 0xA9])))"

fun has_line_break :: "string \<Rightarrow> bool" where
  "has_line_break [] = False"
| "has_line_break (c # cs) = (line_break_at (c # cs) \<or> has_line_break cs)"

definition fg_match :: "bool \<Rightarrow> string list \<Rightarrow> string \<Rightarrow> bool" where
  "fg_match dot dir name =
     ((dot \<or> \<not> list_ex hidden (dir @ [name])) \<and>
      \<not> list_ex has_line_break dir \<and> \<not> line_break_at name)"

text \<open>
  \<open>read_level\<close> reads the directories of one level, given relative to \<open>cwd\<close>: the
  entries found, each with the directory it is in.
\<close>

fun read_level ::
  "fs \<Rightarrow> string list \<Rightarrow> string list list \<Rightarrow> error + (string list \<times> string \<times> node) list" where
  "read_level fs cwd [] = Inr []"
| "read_level fs cwd (q # qs) =
     (case readdirSync fs (cwd @ q) of
        Inl e \<Rightarrow> (if e = ENOENT then read_level fs cwd qs else Inl e)
      | Inr entries \<Rightarrow>
          (case read_level fs cwd qs of
             Inl e \<Rightarrow> Inl e
           | Inr rest \<Rightarrow> Inr (map (\<lambda>nt. (q, fst nt, snd nt)) entries @ rest)))"

definition entry_path :: "string list \<times> string \<times> node \<Rightarrow> string list" where
  "entry_path e = fst e @ [fst (snd e)]"

function fg_walk ::
  "fs \<Rightarrow> string list \<Rightarrow> bool \<Rightarrow> string list list \<Rightarrow> error + string list list" where
  "fg_walk fs cwd dot qs =
     (if qs = [] then Inr []
      else case read_level fs cwd qs of
             Inl e \<Rightarrow> Inl e
           | Inr entries \<Rightarrow>
               (case fg_walk fs cwd dot
                       (map entry_path (filter (\<lambda>e. snd (snd e) = Dir) entries)) of
                  Inl e \<Rightarrow> Inl e
                | Inr found \<Rightarrow>
                    Inr (map entry_path
                           (filter (\<lambda>e. snd (snd e) \<noteq> Dir \<and> fg_match dot (fst e) (fst (snd e)))
                              entries) @ found)))"
  by pat_completeness auto
termination
proof (relation "measure (\<lambda>(fs, cwd, dot, qs).
    if qs = [] then 0
    else Suc (Suc (Max (insert 0 (set (map (\<lambda>kn. length (fst kn)) fs)))) -
              (length cwd + Min (set (map length qs)))))", goal_cases)
  case 1
  show ?case by simp
next
  case (2 fs cwd dot qs entries)
  let ?M = "Max (insert 0 (set (map (\<lambda>kn. length (fst kn)) fs)))"
  let ?qs' = "map entry_path (filter (\<lambda>e. snd (snd e) = Dir) entries)"
  have rd: "\<exists>kn \<in> set fs. length (fst kn) = Suc (length d)"
    if "readdirSync fs d = Inr es" "nt \<in> set es" for d es nt
  proof -
    from that obtain kn where "kn \<in> set fs" "fst kn \<noteq> []" "butlast (fst kn) = d"
      by (auto simp: readdirSync_def split: sum.splits node.splits)
    moreover from this have "length (fst kn) = Suc (length d)"
      by (cases "fst kn" rule: rev_cases) auto
    ultimately show ?thesis
      by blast
  qed
  have lv: "e \<in> set es \<Longrightarrow>
      fst e \<in> set ps \<and> (\<exists>kn \<in> set fs. length (fst kn) = Suc (length (cwd @ fst e)))"
    if "read_level fs cwd ps = Inr es" for ps es e
    using that
  proof (induction ps arbitrary: es)
    case Nil
    then show ?case by simp
  next
    case (Cons p ps)
    show ?case
    proof (cases "readdirSync fs (cwd @ p)")
      case (Inl er)
      with Cons.prems have "read_level fs cwd ps = Inr es"
        by (auto split: if_splits)
      from Cons.IH [OF Cons.prems(1) this] show ?thesis
        by auto
    next
      case (Inr ents)
      with Cons.prems(2) obtain rest where r: "read_level fs cwd ps = Inr rest"
        and es: "es = map (\<lambda>nt. (p, fst nt, snd nt)) ents @ rest"
        by (auto split: sum.splits)
      from Cons.prems(1) es consider nt where "nt \<in> set ents" "e = (p, fst nt, snd nt)"
        | "e \<in> set rest"
        by auto
      then show ?thesis
      proof cases
        case 1
        with rd [OF Inr 1(1)] show ?thesis
          by auto
      next
        case 2
        from Cons.IH [OF 2 r] show ?thesis
          by auto
      qed
    qed
  qed
  show ?case
  proof (cases "?qs' = []")
    case True
    with 2(1) show ?thesis by simp
  next
    case False
    have fin: "finite (set (map length qs))" "set (map length qs) \<noteq> {}"
      using 2(1) by simp_all
    have fin': "finite (set (map length ?qs'))" "set (map length ?qs') \<noteq> {}"
      using False by (simp_all only: finite_set set_empty map_is_Nil_conv simp_thms)
    from Min_in [OF fin'] obtain e where e: "e \<in> set entries"
      and m': "Min (set (map length ?qs')) = Suc (length (fst e))"
      by (auto simp: entry_path_def)
    from lv [OF 2(2) e] obtain kn where q: "fst e \<in> set qs" and kn: "kn \<in> set fs"
      and l: "length (fst kn) = Suc (length (cwd @ fst e))"
      by blast
    from q have "Min (set (map length qs)) \<le> length (fst e)"
      by (intro Min_le) auto
    moreover from kn have "length (fst kn) \<le> ?M"
      by (intro Max_ge) auto
    ultimately show ?thesis
      using l m' 2(1) False by simp
  qed
qed

declare fg_walk.simps [simp del]

definition unique :: "string list \<Rightarrow> string list" where
  "unique xs = rev (remdups (rev xs))"

definition fg_sync :: "fs \<Rightarrow> string \<Rightarrow> bool \<Rightarrow> error + string list" where
  "fg_sync fs cwd dot =
     (case fg_walk fs (segments cwd) dot [[]] of
        Inl e \<Rightarrow> Inl e
      | Inr found \<Rightarrow> Inr (unique (map (js_join ''/'') found)))"

text \<open>\<^verbatim>\<open>process.chdir\<close>: fails unless the path is a directory.\<close>

definition process_chdir :: "fs \<Rightarrow> string \<Rightarrow> error + unit" where
  "process_chdir fs p =
     (case statSync fs p of
        Inl e \<Rightarrow> Inl e
      | Inr Dir \<Rightarrow> Inr ()
      | Inr (File _ _) \<Rightarrow> Inl ENOTDIR)"

subsection \<open>The script\<close>

definition NUM_HEX_CHARS :: nat where
  "NUM_HEX_CHARS = 16"

text \<open>The constants depend on \<^verbatim>\<open>__dirname\<close>, the directory of the script: a parameter.\<close>

definition REPO_ROOT :: "string \<Rightarrow> string" where
  "REPO_ROOT dirname = path_resolve dirname ''..''"

definition CONTENT_DIR :: "string \<Rightarrow> string" where
  "CONTENT_DIR dirname = posix_join [REPO_ROOT dirname, ''content'']"

definition PUBLIC_CONTENT_DIR :: "string \<Rightarrow> string" where
  "PUBLIC_CONTENT_DIR dirname = posix_join [REPO_ROOT dirname, ''public'', ''content'']"

definition CATALOG_FILE :: "string \<Rightarrow> string" where
  "CATALOG_FILE dirname =
     posix_join [REPO_ROOT dirname, ''src'', ''assets'', ''content-catalog.json'']"

text \<open>\<^verbatim>\<open>opts.dot\<close> is optional; \<^verbatim>\<open>Boolean(undefined)\<close> is \<^verbatim>\<open>false\<close>.\<close>

definition scanRecursive :: "fs \<Rightarrow> string \<Rightarrow> bool option \<Rightarrow> error + string list" where
  "scanRecursive fs rootDir opts_dot =
     (case fg_sync fs rootDir (case opts_dot of None \<Rightarrow> False | Some d \<Rightarrow> d) of
        Inl e \<Rightarrow> Inl e
      | Inr entries \<Rightarrow> Inr (map (\<lambda>e. js_join ''/'' (js_split (CHR ''/'') e)) entries))"

definition clearPublicContent :: "string \<Rightarrow> fs \<Rightarrow> (error \<times> fs) + fs" where
  "clearPublicContent dirname fs =
     ensureDirSync (removeSync fs (PUBLIC_CONTENT_DIR dirname)) (PUBLIC_CONTENT_DIR dirname)"

definition getContentFiles :: "string \<Rightarrow> fs \<Rightarrow> error + string list" where
  "getContentFiles dirname fs = scanRecursive fs (CONTENT_DIR dirname) None"

text \<open>Line 69: the MD5 hex digest of the buffer, cut to \<open>NUM_HEX_CHARS\<close> characters.\<close>

definition fingerprint :: "bytes \<Rightarrow> string" where
  "fingerprint buffer = take NUM_HEX_CHARS (md5_hex buffer)"

text \<open>Lines 70 to 74: the published name of a relative path, given the hash.\<close>

definition hashedName :: "string \<Rightarrow> string \<Rightarrow> string" where
  "hashedName relPath hash =
     (let ext = path_extname relPath;
          name = path_basename relPath ext
      in name @ ''.'' @ hash @ ext)"

definition outputRel :: "string \<Rightarrow> string \<Rightarrow> string" where
  "outputRel relPath hash = posix_join [path_dirname relPath, hashedName relPath hash]"

text \<open>The body of the \<^verbatim>\<open>forEach\<close> callback of \<^verbatim>\<open>processFiles\<close> (lines 67 to 80).\<close>

definition processFile ::
  "string \<Rightarrow> fs \<Rightarrow> obj \<Rightarrow> string \<Rightarrow> (error \<times> fs) + (fs \<times> obj)" where
  "processFile dirname fs catalog relPath =
     (let src = posix_join [CONTENT_DIR dirname, relPath] in
      case readFileSync fs src of
        Inl e \<Rightarrow> Inl (e, fs)
      | Inr buffer \<Rightarrow>
         (let hash = fingerprint buffer;
              out = outputRel relPath hash;
              dest = posix_join [PUBLIC_CONTENT_DIR dirname, out]
          in case copySync fs src dest of
               Inl x \<Rightarrow> Inl x
             | Inr fs' \<Rightarrow>
                 Inr (fs', obj_set catalog relPath (''/'' @ posix_join [''content'', out]))))"

fun forEach_processFile ::
  "string \<Rightarrow> fs \<Rightarrow> obj \<Rightarrow> string list \<Rightarrow> (error \<times> fs) + (fs \<times> obj)" where
  "forEach_processFile dirname fs catalog [] = Inr (fs, catalog)"
| "forEach_processFile dirname fs catalog (relPath # rest) =
     (case processFile dirname fs catalog relPath of
        Inl x \<Rightarrow> Inl x
      | Inr (fs', catalog') \<Rightarrow> forEach_processFile dirname fs' catalog' rest)"

definition processFiles :: "string \<Rightarrow> fs \<Rightarrow> string list \<Rightarrow> (error \<times> fs) + (fs \<times> obj)" where
  "processFiles dirname fs fileList = forEach_processFile dirname fs [] fileList"

definition writeCatalog :: "string \<Rightarrow> fs \<Rightarrow> obj \<Rightarrow> (error \<times> fs) + fs" where
  "writeCatalog dirname fs catalog =
     (case ensureDirSync fs (path_dirname (CATALOG_FILE dirname)) of
        Inl x \<Rightarrow> Inl x
      | Inr fs1 \<Rightarrow> writeJsonSync fs1 (CATALOG_FILE dirname) catalog)"

fun string_of_nat :: "nat \<Rightarrow> string" where
  "string_of_nat n =
     (if n < 10 then [hex_digit n] else string_of_nat (n div 10) @ [hex_digit (n mod 10)])"

text \<open>
  \<^verbatim>\<open>main\<close>: the result is the line it logs and the final file system, or the uncaught
  exception (the process then exits with a non-zero code) and the file system it leaves.
\<close>

definition main :: "string \<Rightarrow> fs \<Rightarrow> (error \<times> fs) + (string \<times> fs)" where
  "main dirname fs =
     (case process_chdir fs (REPO_ROOT dirname) of
        Inl e \<Rightarrow> Inl (e, fs)
      | Inr _ \<Rightarrow>
     (case clearPublicContent dirname fs of
        Inl x \<Rightarrow> Inl x
      | Inr fs1 \<Rightarrow>
     (case getContentFiles dirname fs1 of
        Inl e \<Rightarrow> Inl (e, fs1)
      | Inr files \<Rightarrow>
     (case processFiles dirname fs1 files of
        Inl x \<Rightarrow> Inl x
      | Inr (fs2, catalog) \<Rightarrow>
     (case writeCatalog dirname fs2 catalog of
        Inl x \<Rightarrow> Inl x
      | Inr fs3 \<Rightarrow>
          Inr (''Processed '' @ string_of_nat (length files) @
               '' files. Catalog written to '' @ CATALOG_FILE dirname, fs3))))))"

subsection \<open>Well-formed names and paths\<close>

text \<open>
  A name in a directory is not empty, has no slash and is neither \<^verbatim>\<open>.\<close> nor \<^verbatim>\<open>..\<close>;
  \<open>abs_path\<close> writes the absolute path of a list of names.
\<close>

definition valid_name :: "string \<Rightarrow> bool" where
  "valid_name s = (s \<noteq> [] \<and> CHR ''/'' \<notin> set s \<and> s \<noteq> ''.'' \<and> s \<noteq> ''..'')"

definition abs_path :: "string list \<Rightarrow> string" where
  "abs_path xs = ''/'' @ js_join ''/'' xs"

definition valid_fs :: "fs \<Rightarrow> bool" where
  "valid_fs fs = list_all (\<lambda>kn. list_all valid_name (fst kn)) fs"

text \<open>The relative path of a file: names joined by slashes.\<close>

definition rel_path :: "string \<Rightarrow> bool" where
  "rel_path p = list_all valid_name (js_split (CHR ''/'') p)"

text \<open>The part of the file system at and below a directory, in listing order.\<close>

definition subtree :: "string list \<Rightarrow> fs \<Rightarrow> fs" where
  "subtree d fs = filter (\<lambda>kn. prefix d (fst kn)) fs"

text \<open>
  \<open>fresh_dirs fs cur target new\<close>: the entries \<open>new\<close> are directories that \<open>fs\<close> does not
  have, each strictly below \<open>cur\<close> and on the way to \<open>target\<close>: what \<^verbatim>\<open>mkdir -p\<close> adds.
\<close>

definition fresh_dirs :: "fs \<Rightarrow> string list \<Rightarrow> string list \<Rightarrow> fs \<Rightarrow> bool" where
  "fresh_dirs fs cur target new =
     list_all (\<lambda>kn. snd kn = Dir \<and> map_of fs (fst kn) = None \<and>
                 strict_prefix cur (fst kn) \<and> prefix (fst kn) target) new"

text \<open>
  \<open>confined rs a b\<close>: going from \<open>a\<close> to \<open>b\<close>, the content directory of the repository at
  \<open>rs\<close> keeps its entries, and a path changes only if it is the output root or below it,
  or the catalog file, or a directory above one of the two that did not exist before.
\<close>

definition confined :: "string list \<Rightarrow> fs \<Rightarrow> fs \<Rightarrow> bool" where
  "confined rs a b =
     (subtree (rs @ [''content'']) b = subtree (rs @ [''content'']) a \<and>
      (\<forall>k. map_of b k = map_of a k \<or>
           prefix (rs @ [''public'', ''content'']) k \<or>
           k = rs @ [''src'', ''assets'', ''content-catalog.json''] \<or>
           ((strict_prefix k (rs @ [''public'', ''content'']) \<or>
             strict_prefix k (rs @ [''src'', ''assets'', ''content-catalog.json''])) \<and>
            map_of a k = None \<and> map_of b k = Some Dir)))"

subsection \<open>Example file systems\<close>

text \<open>The script lives in \<^verbatim>\<open>/repo/scripts\<close>, so the repository root is \<^verbatim>\<open>/repo\<close>.\<close>

definition example_dirname :: string where
  "example_dirname = ''/repo/scripts''"

text \<open>A content root whose only file is named \<^verbatim>\<open>__proto__\<close>.\<close>

definition fs_proto :: fs where
  "fs_proto =
     [([], Dir), ([''repo''], Dir), ([''repo'', ''scripts''], Dir),
      ([''repo'', ''content''], Dir),
      ([''repo'', ''content'', ''__proto__''], File ''hello'' True)]"

text \<open>A repository without a content directory.\<close>

definition fs_no_content :: fs where
  "fs_no_content = [([], Dir), ([''repo''], Dir), ([''repo'', ''scripts''], Dir)]"

text \<open>
  The scenario of the specification: \<^verbatim>\<open>docs/a.txt\<close> holds \<^verbatim>\<open>hello\<close>, \<^verbatim>\<open>docs/b.txt\<close> holds
  \<^verbatim>\<open>world\<close>; \<^verbatim>\<open>copy.txt\<close> holds \<^verbatim>\<open>hello\<close> too, and a file of an earlier run is still in
  the output root.
\<close>

definition fs_docs :: fs where
  "fs_docs =
     [([], Dir), ([''repo''], Dir), ([''repo'', ''scripts''], Dir),
      ([''repo'', ''content''], Dir),
      ([''repo'', ''content'', ''docs''], Dir),
      ([''repo'', ''content'', ''docs'', ''a.txt''], File ''hello'' True),
      ([''repo'', ''content'', ''docs'', ''b.txt''], File ''world'' True),
      ([''repo'', ''content'', ''copy.txt''], File ''hello'' True),
      ([''repo'', ''public''], Dir),
      ([''repo'', ''public'', ''content''], Dir),
      ([''repo'', ''public'', ''content'', ''old.0123456789abcdef.txt''], File ''stale'' True)]"

text \<open>
  A content root with an unreadable file between two readable ones, and what the first
  steps of the run make of it: the tree after \<^verbatim>\<open>clearPublicContent\<close>, and the tree
  after \<^verbatim>\<open>a.txt\<close> is published.
\<close>

definition fs_locked :: fs where
  "fs_locked =
     [([], Dir), ([''repo''], Dir), ([''repo'', ''scripts''], Dir),
      ([''repo'', ''content''], Dir),
      ([''repo'', ''content'', ''a.txt''], File ''hello'' True),
      ([''repo'', ''content'', ''b.txt''], File ''world'' False),
      ([''repo'', ''content'', ''c.txt''], File ''hello'' True),
      ([''repo'', ''src''], Dir), ([''repo'', ''src'', ''assets''], Dir),
      ([''repo'', ''src'', ''assets'', ''content-catalog.json''], File ''old'' True)]"

definition fs_locked_cleared :: fs where
  "fs_locked_cleared =
     fs_locked @ [([''repo'', ''public''], Dir), ([''repo'', ''public'', ''content''], Dir)]"

definition fs_locked_after_a :: fs where
  "fs_locked_after_a =
     fs_locked_cleared @
       [([''repo'', ''public'', ''content'', ''a.5d41402abc4b2a76.txt''], File ''hello'' True)]"

text \<open>What the runs below leave or pass through.\<close>

definition fs_no_content_after :: fs where
  "fs_no_content_after =
     fs_no_content @
       [([''repo'', ''public''], Dir), ([''repo'', ''public'', ''content''], Dir),
        ([''repo'', ''src''], Dir), ([''repo'', ''src'', ''assets''], Dir),
        ([''repo'', ''src'', ''assets'', ''content-catalog.json''],
         File (''{}'' @ [CHR 0x0A]) True)]"

definition fs_proto_cleared :: fs where
  "fs_proto_cleared =
     fs_proto @ [([''repo'', ''public''], Dir), ([''repo'', ''public'', ''content''], Dir)]"

definition fs_proto_published :: fs where
  "fs_proto_published =
     fs_proto_cleared @
       [([''repo'', ''public'', ''content'', ''__proto__.5d41402abc4b2a76''], File ''hello'' True)]"

definition fs_docs_after_a :: fs where
  "fs_docs_after_a =
     fs_docs @
       [([''repo'', ''public'', ''content'', ''docs''], Dir),
        ([''repo'', ''public'', ''content'', ''docs'', ''a.5d41402abc4b2a76.txt''],
         File ''hello'' True)]"

section \<open>Properties\<close>

subsection \<open>The shape of a fingerprint\<close>

lemma hex_digit_in: "hex_digit n \<in> set hex_chars"
  unfolding hex_digit_def by (rule nth_mem) (simp add: hex_chars_def)

lemma length_hex_byte: "length (hex_byte b) = 2"
  by (simp add: hex_byte_def)

lemma set_hex_byte: "set (hex_byte b) \<subseteq> set hex_chars"
  by (simp add: hex_byte_def hex_digit_in)

lemma upt_0_4: "[0..<4] = [0, 1, 2, 3]"
  by (simp add: upt_rec)

lemma length_hex_word_le: "length (hex_word_le w) = 8"
  by (simp add: hex_word_le_def upt_0_4 length_hex_byte)

lemma set_hex_word_le: "set (hex_word_le w) \<subseteq> set hex_chars"
  using set_hex_byte by (auto simp: hex_word_le_def)

lemma length_md5_hex: "length (md5_hex bs) = 32"
  by (simp add: md5_hex_def length_hex_word_le split: prod.splits)

lemma set_md5_hex: "set (md5_hex bs) \<subseteq> set hex_chars"
  using set_hex_word_le by (auto simp: md5_hex_def split: prod.splits)

lemma length_fingerprint: "length (fingerprint b) = 16"
  by (simp add: fingerprint_def NUM_HEX_CHARS_def length_md5_hex)

lemma set_fingerprint: "set (fingerprint b) \<subseteq> set hex_chars"
  unfolding fingerprint_def by (rule subset_trans [OF set_take_subset set_md5_hex])

subsection \<open>C1: the fingerprint is a function of the bytes\<close>

text \<open>
  C1. Two files with the same bytes get the same fingerprint, whatever their paths, the
  file systems they are in and the directory of the script: once the bytes \<open>b\<close> of a
  file are read, the callback goes on with the one string \<open>h\<close>, the first
  \<open>NUM_HEX_CHARS\<close> characters of the MD5 hex digest of \<open>b\<close>, which is 16 lowercase
  hexadecimal digits; the path of the file enters the published name and the catalog
  entry only beside \<open>h\<close>.
\<close>

theorem fingerprint_of_bytes_alone:
  assumes "readFileSync fs (posix_join [CONTENT_DIR dn, p]) = Inr b"
    and "readFileSync fs' (posix_join [CONTENT_DIR dn', q]) = Inr b"
  shows "\<exists>h. h = take NUM_HEX_CHARS (md5_hex b) \<and> length h = 16 \<and> set h \<subseteq> set hex_chars \<and>
           processFile dn fs cat p =
             (case copySync fs (posix_join [CONTENT_DIR dn, p])
                     (posix_join [PUBLIC_CONTENT_DIR dn, outputRel p h]) of
                Inl x \<Rightarrow> Inl x
              | Inr fs1 \<Rightarrow>
                  Inr (fs1, obj_set cat p (''/'' @ posix_join [''content'', outputRel p h]))) \<and>
           processFile dn' fs' cat' q =
             (case copySync fs' (posix_join [CONTENT_DIR dn', q])
                     (posix_join [PUBLIC_CONTENT_DIR dn', outputRel q h]) of
                Inl x \<Rightarrow> Inl x
              | Inr fs1 \<Rightarrow>
                  Inr (fs1, obj_set cat' q (''/'' @ posix_join [''content'', outputRel q h])))"
proof -
  let ?h = "fingerprint b"
  have "?h = take NUM_HEX_CHARS (md5_hex b)"
    by (simp add: fingerprint_def)
  moreover have "length ?h = 16"
    by (rule length_fingerprint)
  moreover have "set ?h \<subseteq> set hex_chars"
    by (rule set_fingerprint)
  moreover have "processFile dn fs cat p =
      (case copySync fs (posix_join [CONTENT_DIR dn, p])
              (posix_join [PUBLIC_CONTENT_DIR dn, outputRel p ?h]) of
         Inl x \<Rightarrow> Inl x
       | Inr fs1 \<Rightarrow>
           Inr (fs1, obj_set cat p (''/'' @ posix_join [''content'', outputRel p ?h])))"
    using assms(1) by (simp add: processFile_def Let_def)
  moreover have "processFile dn' fs' cat' q =
      (case copySync fs' (posix_join [CONTENT_DIR dn', q])
              (posix_join [PUBLIC_CONTENT_DIR dn', outputRel q ?h]) of
         Inl x \<Rightarrow> Inl x
       | Inr fs1 \<Rightarrow>
           Inr (fs1, obj_set cat' q (''/'' @ posix_join [''content'', outputRel q ?h])))"
    using assms(2) by (simp add: processFile_def Let_def)
  ultimately show ?thesis
    by blast
qed

theorem fingerprint_of_bytes_alone_witness:
  "readFileSync fs_docs (posix_join [CONTENT_DIR example_dirname, ''docs/a.txt'']) = Inr ''hello'' \<and>
   readFileSync fs_docs (posix_join [CONTENT_DIR example_dirname, ''copy.txt'']) = Inr ''hello'' \<and>
   (\<exists>h. h = take NUM_HEX_CHARS (md5_hex ''hello'') \<and> length h = 16 \<and>
      processFile example_dirname fs_docs [] ''docs/a.txt'' =
        (case copySync fs_docs (posix_join [CONTENT_DIR example_dirname, ''docs/a.txt''])
                (posix_join [PUBLIC_CONTENT_DIR example_dirname, outputRel ''docs/a.txt'' h]) of
           Inl x \<Rightarrow> Inl x
         | Inr fs1 \<Rightarrow>
             Inr (fs1, obj_set [] ''docs/a.txt''
                    (''/'' @ posix_join [''content'', outputRel ''docs/a.txt'' h]))) \<and>
      processFile example_dirname fs_docs [] ''copy.txt'' =
        (case copySync fs_docs (posix_join [CONTENT_DIR example_dirname, ''copy.txt''])
                (posix_join [PUBLIC_CONTENT_DIR example_dirname, outputRel ''copy.txt'' h]) of
           Inl x \<Rightarrow> Inl x
         | Inr fs1 \<Rightarrow>
             Inr (fs1, obj_set [] ''copy.txt''
                    (''/'' @ posix_join [''content'', outputRel ''copy.txt'' h]))))"
proof -
  have r1: "readFileSync fs_docs (posix_join [CONTENT_DIR example_dirname, ''docs/a.txt''])
              = Inr ''hello''"
    by code_simp
  have r2: "readFileSync fs_docs (posix_join [CONTENT_DIR example_dirname, ''copy.txt''])
              = Inr ''hello''"
    by code_simp
  from fingerprint_of_bytes_alone [OF r1 r2, where cat = "[]" and cat' = "[]"] r1 r2
  show ?thesis
    by blast
qed

subsection \<open>Splitting and joining\<close>
lemma js_split_ne: "js_split c s \<noteq> []"
  by (induction s) (auto split: list.splits)

lemma js_split_append: "js_split c (a @ c # b) = js_split c a @ js_split c b"
  by (induction a) (auto split: list.splits simp: js_split_ne)

lemma js_split_free: "c \<notin> set s \<Longrightarrow> js_split c s = [s]"
  by (induction s) auto

lemma js_join_split: "js_join [c] (js_split c s) = s"
proof (induction s)
  case Nil
  then show ?case by simp
next
  case (Cons x s)
  show ?case
  proof (cases "x = c")
    case True
    with Cons show ?thesis
      by (cases "js_split c s") (auto simp: js_split_ne)
  next
    case False
    with Cons show ?thesis
      by (cases "js_split c s"; cases "tl (js_split c s)") (auto simp: js_split_ne)
  qed
qed

lemma js_join_Cons: "ys \<noteq> [] \<Longrightarrow> js_join sep (x # ys) = x @ sep @ js_join sep ys"
  by (cases ys) auto

lemma js_join_snoc: "ds \<noteq> [] \<Longrightarrow> js_join sep (ds @ [f]) = js_join sep ds @ sep @ f"
  by (induction sep ds rule: js_join.induct) auto

lemma js_split_join:
  "xs \<noteq> [] \<Longrightarrow> list_all (\<lambda>s. c \<notin> set s) xs \<Longrightarrow> js_split c (js_join [c] xs) = xs"
proof (induction xs)
  case Nil
  then show ?case by simp
next
  case (Cons x xs)
  show ?case
  proof (cases "xs = []")
    case True
    with Cons.prems show ?thesis by (simp add: js_split_free)
  next
    case False
    with Cons show ?thesis
      by (simp add: js_join_Cons js_split_append js_split_free)
  qed
qed


lemma segments_append: "segments (a @ CHR ''/'' # b) = segments a @ segments b"
  by (simp add: segments_def js_split_append)

lemma js_join_valid_ne: "xs \<noteq> [] \<Longrightarrow> list_all valid_name xs \<Longrightarrow> js_join sep xs \<noteq> []"
  by (induction sep xs rule: js_join.induct) (auto simp: valid_name_def)

lemma valid_no_slash: "list_all valid_name xs \<Longrightarrow> list_all (\<lambda>s. CHR ''/'' \<notin> set s) xs"
  by (induction xs) (auto simp: valid_name_def)

lemma valid_filter_ne: "list_all valid_name xs \<Longrightarrow> filter (\<lambda>s. s \<noteq> []) xs = xs"
  by (induction xs) (auto simp: valid_name_def)

lemma segments_join: "list_all valid_name xs \<Longrightarrow> segments (js_join ''/'' xs) = xs"
proof (cases "xs = []")
  case True
  then show ?thesis by (simp add: segments_def)
next
  case False
  assume v: "list_all valid_name xs"
  with False have "js_split (CHR ''/'') (js_join ''/'' xs) = xs"
    using js_split_join [of xs "CHR ''/''"] valid_no_slash by blast
  with v show ?thesis
    by (simp add: segments_def valid_filter_ne)
qed

lemma segments_abs_path: "list_all valid_name xs \<Longrightarrow> segments (abs_path xs) = xs"
proof -
  assume v: "list_all valid_name xs"
  have "segments (abs_path xs) = segments [] @ segments (js_join ''/'' xs)"
    unfolding abs_path_def using segments_append [of "[]" "js_join ''/'' xs"] by simp
  with v show ?thesis
    by (simp add: segments_join) (simp add: segments_def)
qed

lemma normalizeString_valid:
  "list_all (\<lambda>s. s = [] \<or> valid_name s) zs \<Longrightarrow>
   normalizeString up acc zs = acc @ filter (\<lambda>s. s \<noteq> []) zs"
  by (induction zs arbitrary: acc) (auto simp: valid_name_def)

lemma normalizeString_append:
  "normalizeString up acc (xs @ ys) = normalizeString up (normalizeString up acc xs) ys"
  by (induction xs arbitrary: acc) auto

lemma split_elems_valid:
  "list_all valid_name (segments p) \<Longrightarrow>
   list_all (\<lambda>s. s = [] \<or> valid_name s) (js_split (CHR ''/'') p)"
  unfolding segments_def by (induction "js_split (CHR ''/'') p") (auto simp: list_all_iff)

lemma isAbsolute_abs_path [simp]: "isAbsolute (abs_path xs)"
  by (simp add: isAbsolute_def abs_path_def)

lemma js_join_ne_last: "xs \<noteq> [] \<Longrightarrow> last xs \<noteq> [] \<Longrightarrow> js_join sep xs \<noteq> []"
  by (induction sep xs rule: js_join.induct) auto

lemma last_js_join:
  "xs \<noteq> [] \<Longrightarrow> last xs \<noteq> [] \<Longrightarrow> last (js_join sep xs) = last (last xs)"
proof (induction sep xs rule: js_join.induct)
  case (3 sep x y ys)
  then have "js_join sep (y # ys) \<noteq> []"
    using js_join_ne_last [of "y # ys" sep] by simp
  with 3 show ?case by simp
qed simp_all

lemma valid_last_char: "valid_name s \<Longrightarrow> last s \<noteq> CHR ''/''"
proof
  assume v: "valid_name s" and l: "last s = CHR ''/''"
  from v have "s \<noteq> []" and n: "CHR ''/'' \<notin> set s"
    by (simp_all add: valid_name_def)
  then have "last s \<in> set s"
    by simp
  with l n show False
    by simp
qed

lemma not_trailing_join:
  "xs \<noteq> [] \<Longrightarrow> list_all valid_name xs \<Longrightarrow> \<not> trailingSeparator (pre @ js_join ''/'' xs)"
proof -
  assume ne: "xs \<noteq> []" and v: "list_all valid_name xs"
  then have l: "valid_name (last xs)"
    by (simp add: list_all_iff)
  then have lne: "last xs \<noteq> []"
    by (simp add: valid_name_def)
  with ne have "js_join ''/'' xs \<noteq> []"
    by (rule js_join_ne_last)
  moreover from ne lne have "last (js_join ''/'' xs) = last (last xs)"
    by (rule last_js_join)
  ultimately show ?thesis
    using l by (simp add: trailingSeparator_def valid_last_char)
qed

lemma posix_normalize_abs:
  assumes "isAbsolute p" "\<not> trailingSeparator p" "list_all valid_name (segments p)"
    "segments p \<noteq> []"
  shows "posix_normalize p = abs_path (segments p)"
proof -
  from assms(1) have pne: "p \<noteq> []"
    by (auto simp: isAbsolute_def)
  have n: "normalizeString False [] (js_split (CHR ''/'') p) = segments p"
    using normalizeString_valid [OF split_elems_valid [OF assms(3)], of False "[]"]
    by (simp add: segments_def)
  have "js_join ''/'' (segments p) \<noteq> []"
    using assms(3,4) by (rule js_join_valid_ne[rotated])
  with pne n assms(1,2) show ?thesis
    by (simp add: posix_normalize_def abs_path_def Let_def)
qed

lemma posix_normalize_rel:
  assumes "\<not> isAbsolute p" "\<not> trailingSeparator p" "list_all valid_name (segments p)"
    "segments p \<noteq> []"
  shows "posix_normalize p = js_join ''/'' (segments p)"
proof -
  from assms(4) have pne: "p \<noteq> []"
    by (auto simp: segments_def)
  have n: "normalizeString True [] (js_split (CHR ''/'') p) = segments p"
    using normalizeString_valid [OF split_elems_valid [OF assms(3)], of True "[]"]
    by (simp add: segments_def)
  have "js_join ''/'' (segments p) \<noteq> []"
    using assms(3,4) by (rule js_join_valid_ne[rotated])
  with pne n assms(1,2) show ?thesis
    by (simp add: posix_normalize_def Let_def)
qed

subsection \<open>Joining paths\<close>
lemma abs_path_ne [simp]: "abs_path xs \<noteq> []"
  by (simp add: abs_path_def)

lemma abs_path_snoc:
  "xs \<noteq> [] \<Longrightarrow> abs_path (xs @ ys) = abs_path xs @ (if ys = [] then [] else ''/'' @ js_join ''/'' ys)"
proof (induction ys rule: rev_induct)
  case Nil
  then show ?case by simp
next
  case (snoc y ys)
  then show ?case
    by (cases "ys = []") (simp_all add: abs_path_def js_join_snoc flip: append_assoc)
qed

lemma posix_join2: "a \<noteq> [] \<Longrightarrow> b \<noteq> [] \<Longrightarrow> posix_join [a, b] = posix_normalize (a @ ''/'' @ b)"
  by (simp add: posix_join_def)

lemma posix_join3:
  "a \<noteq> [] \<Longrightarrow> b \<noteq> [] \<Longrightarrow> c \<noteq> [] \<Longrightarrow>
   posix_join [a, b, c] = posix_normalize (a @ ''/'' @ b @ ''/'' @ c)"
  by (simp add: posix_join_def)

lemma posix_join_abs:
  assumes "list_all valid_name xs" "list_all valid_name ys" "ys \<noteq> []"
  shows "posix_join [abs_path xs, js_join ''/'' ys] = abs_path (xs @ ys)"
proof -
  let ?p = "abs_path xs @ ''/'' @ js_join ''/'' ys"
  have b: "js_join ''/'' ys \<noteq> []"
    using assms(3,2) by (rule js_join_valid_ne)
  have s: "segments ?p = xs @ ys"
    using segments_append [of "abs_path xs" "js_join ''/'' ys"] assms(1,2)
    by (simp add: segments_abs_path segments_join)
  have "isAbsolute ?p"
    by (simp add: isAbsolute_def abs_path_def)
  moreover have "\<not> trailingSeparator ?p"
    using not_trailing_join [OF assms(3,2), of "abs_path xs @ ''/''"] by simp
  ultimately have "posix_normalize ?p = abs_path (xs @ ys)"
    using posix_normalize_abs [of ?p] s assms by simp
  with b show ?thesis
    by (simp add: posix_join2)
qed

lemma posix_join_abs1:
  "list_all valid_name xs \<Longrightarrow> valid_name y \<Longrightarrow> posix_join [abs_path xs, y] = abs_path (xs @ [y])"
  using posix_join_abs [of xs "[y]"] by simp

lemma posix_join_rel:
  assumes "list_all valid_name xs" "list_all valid_name ys" "xs \<noteq> []" "ys \<noteq> []"
  shows "posix_join [js_join ''/'' xs, js_join ''/'' ys] = js_join ''/'' (xs @ ys)"
proof -
  let ?p = "js_join ''/'' xs @ ''/'' @ js_join ''/'' ys"
  have a: "js_join ''/'' xs \<noteq> []"
    using assms(3,1) by (rule js_join_valid_ne)
  have b: "js_join ''/'' ys \<noteq> []"
    using assms(4,2) by (rule js_join_valid_ne)
  have s: "segments ?p = xs @ ys"
    using segments_append [of "js_join ''/'' xs" "js_join ''/'' ys"] assms(1,2)
    by (simp add: segments_join)
  have "hd xs \<noteq> []" "CHR ''/'' \<notin> set (hd xs)"
    using assms(1,3) by (cases xs; simp add: valid_name_def)+
  then have "hd (js_join ''/'' xs) \<noteq> CHR ''/''"
    using assms(3) by (cases xs; cases "tl xs"; cases "hd xs") auto
  with a have "\<not> isAbsolute ?p"
    by (cases "js_join ''/'' xs") (auto simp: isAbsolute_def)
  moreover have "\<not> trailingSeparator ?p"
    using not_trailing_join [OF assms(4,2), of "js_join ''/'' xs @ ''/''"] by simp
  ultimately have "posix_normalize ?p = js_join ''/'' (xs @ ys)"
    using posix_normalize_rel [of ?p] s assms by simp
  with a b show ?thesis
    by (simp add: posix_join2)
qed

lemma posix_join_dot:
  assumes "list_all valid_name ys" "ys \<noteq> []"
  shows "posix_join [''.'', js_join ''/'' ys] = js_join ''/'' ys"
proof -
  let ?p = "''.'' @ ''/'' @ js_join ''/'' ys"
  have b: "js_join ''/'' ys \<noteq> []"
    using assms(2,1) by (rule js_join_valid_ne)
  have sp: "js_split (CHR ''/'') ?p = ''.'' # ys"
    using js_split_append [of "CHR ''/''" "''.''" "js_join ''/'' ys"]
      js_split_join [OF assms(2) valid_no_slash [OF assms(1)]]
    by simp
  have n: "normalizeString True [] (''.'' # ys) = ys"
    using normalizeString_valid [of ys True "[]"] assms(1)
    by (simp add: valid_filter_ne list_all_iff)
  have "\<not> trailingSeparator ?p"
    using not_trailing_join [OF assms(2,1), of "''./''"] by simp
  with sp n b have "posix_normalize ?p = js_join ''/'' ys"
    by (simp add: posix_normalize_def isAbsolute_def Let_def)
  with b show ?thesis
    by (simp add: posix_join2)
qed

lemma constants:
  assumes "REPO_ROOT dn = abs_path rs" "list_all valid_name rs"
  shows "CONTENT_DIR dn = abs_path (rs @ [''content''])"
    and "PUBLIC_CONTENT_DIR dn = abs_path (rs @ [''public'', ''content''])"
    and "CATALOG_FILE dn = abs_path (rs @ [''src'', ''assets'', ''content-catalog.json''])"
proof -
  have v1: "valid_name ''content''" "valid_name ''public''" "valid_name ''src''"
    "valid_name ''assets''" "valid_name ''content-catalog.json''"
    by (simp_all add: valid_name_def)
  show "CONTENT_DIR dn = abs_path (rs @ [''content''])"
    using posix_join_abs1 [OF assms(2) v1(1)] assms(1) by (simp add: CONTENT_DIR_def)
  have "posix_join [abs_path rs, js_join ''/'' [''public'', ''content'']]
          = abs_path (rs @ [''public'', ''content''])"
    using assms(2) v1 by (intro posix_join_abs) simp_all
  then show "PUBLIC_CONTENT_DIR dn = abs_path (rs @ [''public'', ''content''])"
    using assms(1) by (simp add: PUBLIC_CONTENT_DIR_def posix_join_def)
  have "posix_join [abs_path rs, js_join ''/'' [''src'', ''assets'', ''content-catalog.json'']]
          = abs_path (rs @ [''src'', ''assets'', ''content-catalog.json''])"
    using assms(2) v1 by (intro posix_join_abs) simp_all
  then show "CATALOG_FILE dn = abs_path (rs @ [''src'', ''assets'', ''content-catalog.json''])"
    using assms(1) by (simp add: CATALOG_FILE_def posix_join_def)
qed

subsection \<open>Directory names\<close>
lemma dirname_end_skip:
  "CHR ''/'' \<notin> set cs \<Longrightarrow> cs \<noteq> [] \<Longrightarrow>
   dirname_end m (n + length cs) (cs @ rest) = dirname_end False n rest"
proof (induction cs arbitrary: m)
  case Nil
  then show ?case by simp
next
  case (Cons c cs)
  show ?case
  proof (cases "cs = []")
    case True
    with Cons.prems show ?thesis by auto
  next
    case False
    with Cons show ?thesis by auto
  qed
qed

lemma path_dirname_snoc:
  assumes "CHR ''/'' \<notin> set f" "f \<noteq> []" "pre \<noteq> []"
  shows "path_dirname (pre @ ''/'' @ f) =
           (if isAbsolute (pre @ ''/'' @ f) \<and> length pre = 1 then ''//'' else pre)"
proof -
  let ?p = "pre @ ''/'' @ f"
  have "dirname_end True (length pre + length (rev f)) (rev f @ CHR ''/'' # rev pre)
          = dirname_end False (length pre) (CHR ''/'' # rev pre)"
    using assms(1,2) by (intro dirname_end_skip) simp_all
  also have "\<dots> = Some (length pre)"
    using assms(3) by simp
  finally have "dirname_end True (length ?p - 1) (rev ?p) = Some (length pre)"
    by simp
  then show ?thesis
    by (simp add: path_dirname_def)
qed

lemma dirname_end_none:
  "CHR ''/'' \<notin> set cs \<Longrightarrow> dirname_end m (length cs) (cs @ [x]) = None"
  by (induction cs arbitrary: m) auto

lemma path_dirname_single:
  assumes "CHR ''/'' \<notin> set f" "f \<noteq> []"
  shows "path_dirname f = ''.''" and "path_dirname (''/'' @ f) = ''/''"
proof -
  obtain c cs where f: "f = c # cs"
    using assms(2) by (cases f) auto
  have "dirname_end True (length (rev cs)) (rev cs @ [c]) = None"
    using assms(1) f by (intro dirname_end_none) simp
  with f assms show "path_dirname f = ''.''"
    by (auto simp: path_dirname_def isAbsolute_def)
  have "dirname_end True (length (rev f)) (rev f @ [CHR ''/'']) = None"
    using assms(1) by (intro dirname_end_none) simp
  then show "path_dirname (''/'' @ f) = ''/''"
    by (simp add: path_dirname_def isAbsolute_def)
qed

lemma path_dirname_rel:
  assumes "list_all valid_name (ds @ [f])"
  shows "path_dirname (js_join ''/'' (ds @ [f])) = (if ds = [] then ''.'' else js_join ''/'' ds)"
proof (cases "ds = []")
  case True
  with assms show ?thesis
    using path_dirname_single(1) [of f] by (simp add: valid_name_def)
next
  case False
  have v: "CHR ''/'' \<notin> set f" "f \<noteq> []"
    using assms by (simp_all add: valid_name_def)
  have ne: "js_join ''/'' ds \<noteq> []"
    using False assms by (intro js_join_valid_ne) simp_all
  have "hd ds \<noteq> []" "CHR ''/'' \<notin> set (hd ds)"
    using assms False by (cases ds; simp add: valid_name_def)+
  then have "hd (js_join ''/'' ds) \<noteq> CHR ''/''"
    using False by (cases ds; cases "tl ds"; cases "hd ds") auto
  with ne have "\<not> isAbsolute (js_join ''/'' ds @ ''/'' @ f)"
    by (cases "js_join ''/'' ds") (auto simp: isAbsolute_def)
  with path_dirname_snoc [OF v ne] False show ?thesis
    by (simp add: js_join_snoc)
qed

lemma path_dirname_abs:
  assumes "list_all valid_name (ds @ [f])"
  shows "path_dirname (abs_path (ds @ [f])) = abs_path ds"
proof (cases "ds = []")
  case True
  with assms show ?thesis
    using path_dirname_single(2) [of f] by (simp add: valid_name_def abs_path_def)
next
  case False
  have v: "CHR ''/'' \<notin> set f" "f \<noteq> []"
    using assms by (simp_all add: valid_name_def)
  have ne: "js_join ''/'' ds \<noteq> []"
    using False assms by (intro js_join_valid_ne) simp_all
  then have "length (abs_path ds) \<noteq> 1"
    by (cases "js_join ''/'' ds") (simp_all add: abs_path_def)
  with path_dirname_snoc [OF v, of "abs_path ds"] False show ?thesis
    by (simp add: abs_path_def js_join_snoc)
qed

subsection \<open>Extensions and hashed names\<close>
lemma strip_slashes_id: "p \<noteq> [] \<Longrightarrow> last p \<noteq> CHR ''/'' \<Longrightarrow> strip_slashes p = p"
  by (cases p rule: rev_cases) (simp_all add: strip_slashes_def)

lemma join_last_char:
  assumes "list_all valid_name (ds @ [f])"
  shows "js_join ''/'' (ds @ [f]) \<noteq> []" and "last (js_join ''/'' (ds @ [f])) \<noteq> CHR ''/''"
proof -
  have v: "valid_name f"
    using assms by simp
  then have fne: "last (ds @ [f]) \<noteq> []"
    by (simp add: valid_name_def)
  show "js_join ''/'' (ds @ [f]) \<noteq> []"
    using js_join_ne_last [of "ds @ [f]" "''/''"] fne by simp
  have "last (js_join ''/'' (ds @ [f])) = last f"
    using last_js_join [of "ds @ [f]" "''/''"] fne by simp
  with v show "last (js_join ''/'' (ds @ [f])) \<noteq> CHR ''/''"
    by (simp add: valid_last_char)
qed

lemma last_portion_rel:
  assumes "list_all valid_name (ds @ [f])"
  shows "last_portion (js_join ''/'' (ds @ [f])) = f"
proof -
  have "strip_slashes (js_join ''/'' (ds @ [f])) = js_join ''/'' (ds @ [f])"
    using join_last_char [OF assms] by (rule strip_slashes_id)
  moreover have "js_split (CHR ''/'') (js_join ''/'' (ds @ [f])) = ds @ [f]"
    using js_split_join [of "ds @ [f]" "CHR ''/''"] valid_no_slash [OF assms] by simp
  ultimately show ?thesis
    by (simp add: last_portion_def)
qed

lemma last_dot_less: "last_dot b = Some k \<Longrightarrow> k < length b"
  by (cases b) (auto simp: last_dot_def split: if_splits)

lemma path_extname_ext_of: "path_extname p = ext_of (last_portion p)"
  by (simp add: path_extname_def)

lemma ext_of_cases:
  "ext_of b = [] \<or> (\<exists>k. 0 < k \<and> k < length b \<and> ext_of b = drop k b)"
  using last_dot_less [of b] by (auto simp: ext_of_def split: option.splits)

lemma ext_of_suffix: "suffix (ext_of b) b"
  using ext_of_cases [of b] by (auto simp: suffix_drop)

lemma ext_of_shorter: "ext_of b \<noteq> [] \<Longrightarrow> length (ext_of b) < length b"
  using ext_of_cases [of b] by auto

lemma set_ext_of: "set (ext_of b) \<subseteq> set b"
  using ext_of_cases [of b] by (auto dest: in_set_dropD)

lemma length_rel_ge:
  "length f \<le> length (js_join ''/'' (ds @ [f]))"
  by (cases "ds = []") (simp_all add: js_join_snoc)

lemma path_basename_rel:
  assumes "list_all valid_name (ds @ [f])"
  shows "path_basename (js_join ''/'' (ds @ [f])) (ext_of f) = take (length f - length (ext_of f)) f"
proof (cases "ext_of f = []")
  case True
  then show ?thesis
    by (simp add: path_basename_def last_portion_rel [OF assms])
next
  case False
  let ?p = "js_join ''/'' (ds @ [f])"
  have l: "length (ext_of f) < length f"
    using False by (rule ext_of_shorter)
  with length_rel_ge [of f ds] have "length (ext_of f) < length ?p"
    by simp
  moreover from this have "ext_of f \<noteq> ?p"
    by auto
  moreover have "f \<noteq> ext_of f"
    using l by auto
  ultimately show ?thesis
    using False l ext_of_suffix [of f]
    by (simp add: path_basename_def last_portion_rel [OF assms])
qed

lemma hashedName_single:
  assumes "valid_name f"
  shows "hashedName f h = take (length f - length (ext_of f)) f @ ''.'' @ h @ ext_of f"
  using path_basename_rel [of "[]" f] last_portion_rel [of "[]" f] assms
  by (simp add: hashedName_def Let_def path_extname_ext_of)

lemma hashedName_rel:
  assumes "list_all valid_name (ds @ [f])"
  shows "hashedName (js_join ''/'' (ds @ [f])) h = hashedName f h"
proof -
  have "valid_name f"
    using assms by simp
  then show ?thesis
    by (simp add: hashedName_single) (simp add: hashedName_def Let_def path_extname_ext_of
      last_portion_rel [OF assms] path_basename_rel [OF assms])
qed

lemma name_ext_whole: "take (length f - length (ext_of f)) f @ ext_of f = f"
  using ext_of_cases [of f] by auto

lemma valid_hashedName:
  assumes "valid_name f" "h \<noteq> []" "CHR ''/'' \<notin> set h" "CHR ''.'' \<notin> set h"
  shows "valid_name (hashedName f h)"
proof -
  let ?n = "take (length f - length (ext_of f)) f"
  have hn: "hashedName f h = ?n @ ''.'' @ h @ ext_of f"
    using assms(1) by (rule hashedName_single)
  have "CHR ''/'' \<notin> set f"
    using assms(1) by (simp add: valid_name_def)
  then have s: "CHR ''/'' \<notin> set (?n @ ''.'' @ h @ ext_of f)"
    using assms(3) set_ext_of [of f] by (auto dest: in_set_takeD)
  obtain c cs where h: "h = c # cs"
    using assms(2) by (cases h) auto
  have "?n @ ''.'' @ h @ ext_of f \<noteq> ''.''"
    using h by (auto simp: Cons_eq_append_conv)
  moreover have "?n @ ''.'' @ h @ ext_of f \<noteq> ''..''"
  proof
    assume "?n @ ''.'' @ h @ ext_of f = ''..''"
    with h have "?n @ CHR ''.'' # c # cs @ ext_of f = ''..''"
      by simp
    then have "c = CHR ''.''"
      by (cases ?n) auto
    with h assms(4) show False
      by simp
  qed
  ultimately show ?thesis
    using s hn by (simp add: valid_name_def)
qed

lemma hex_no_slash_dot: "CHR ''/'' \<notin> set hex_chars" "CHR ''.'' \<notin> set hex_chars"
  by (simp_all add: hex_chars_def)

subsection \<open>The paths the script builds\<close>
lemma valid_fingerprint_name: "valid_name f \<Longrightarrow> valid_name (hashedName f (fingerprint b))"
proof -
  assume v: "valid_name f"
  have "fingerprint b \<noteq> []"
    using length_fingerprint [of b] by auto
  moreover have "CHR ''/'' \<notin> set (fingerprint b)" "CHR ''.'' \<notin> set (fingerprint b)"
    using set_fingerprint [of b] hex_no_slash_dot by auto
  ultimately show ?thesis
    using v by (intro valid_hashedName)
qed

lemma outputRel_rel:
  assumes "list_all valid_name (ds @ [f])" "valid_name (hashedName f h)"
  shows "outputRel (js_join ''/'' (ds @ [f])) h = js_join ''/'' (ds @ [hashedName f h])"
proof -
  have d: "path_dirname (js_join ''/'' (ds @ [f])) = (if ds = [] then ''.'' else js_join ''/'' ds)"
    using assms(1) by (rule path_dirname_rel)
  have n: "hashedName (js_join ''/'' (ds @ [f])) h = hashedName f h"
    using assms(1) by (rule hashedName_rel)
  have o: "outputRel (js_join ''/'' (ds @ [f])) h =
      posix_join [if ds = [] then ''.'' else js_join ''/'' ds, hashedName f h]"
    unfolding outputRel_def d n ..
  show ?thesis
  proof (cases "ds = []")
    case True
    with assms(2) o show ?thesis
      using posix_join_dot [of "[hashedName f h]"] by simp
  next
    case False
    with assms o show ?thesis
      using posix_join_rel [of ds "[hashedName f h]"] by simp
  qed
qed

lemma src_path:
  assumes "REPO_ROOT dn = abs_path rs" "list_all valid_name rs" "list_all valid_name (ds @ [f])"
  shows "posix_join [CONTENT_DIR dn, js_join ''/'' (ds @ [f])] = abs_path (rs @ [''content''] @ ds @ [f])"
proof -
  have "list_all valid_name (rs @ [''content''])"
    using assms(2) by (simp add: valid_name_def)
  then show ?thesis
    using posix_join_abs [of "rs @ [''content'']" "ds @ [f]"] assms
    by (simp add: constants)
qed

lemma dest_path:
  assumes "REPO_ROOT dn = abs_path rs" "list_all valid_name rs" "list_all valid_name (ds @ [f])"
    "valid_name (hashedName f h)"
  shows "posix_join [PUBLIC_CONTENT_DIR dn, outputRel (js_join ''/'' (ds @ [f])) h]
           = abs_path (rs @ [''public'', ''content''] @ ds @ [hashedName f h])"
proof -
  have "list_all valid_name (rs @ [''public'', ''content''])"
    using assms(2) by (simp add: valid_name_def)
  then show ?thesis
    using posix_join_abs [of "rs @ [''public'', ''content'']" "ds @ [hashedName f h]"] assms
    by (simp add: constants outputRel_rel)
qed

lemma url_path:
  assumes "list_all valid_name (ds @ [f])" "valid_name (hashedName f h)"
  shows "''/'' @ posix_join [''content'', outputRel (js_join ''/'' (ds @ [f])) h]
           = abs_path ([''content''] @ ds @ [hashedName f h])"
proof -
  have "posix_join [js_join ''/'' [''content''], js_join ''/'' (ds @ [hashedName f h])]
          = js_join ''/'' ([''content''] @ (ds @ [hashedName f h]))"
    using assms by (intro posix_join_rel) (simp_all add: valid_name_def)
  then show ?thesis
    using assms by (simp add: outputRel_rel abs_path_def)
qed

lemma walk_Inr_lookup: "walk fs cur rest = Inr n \<Longrightarrow> map_of fs (cur @ rest) = Some n"
proof (induction rest arbitrary: cur)
  case Nil
  then show ?case by (simp split: option.splits)
next
  case (Cons s ss)
  from Cons.prems have "walk fs (cur @ [s]) ss = Inr n"
    by (auto split: option.splits node.splits)
  from Cons.IH [OF this] show ?case by simp
qed

lemma walk_Inr_dirs:
  "walk fs cur rest = Inr n \<Longrightarrow> i < length rest \<Longrightarrow> map_of fs (cur @ take i rest) = Some Dir"
proof (induction rest arbitrary: cur i)
  case Nil
  then show ?case by simp
next
  case (Cons s ss)
  from Cons.prems(1) have d: "map_of fs cur = Some Dir" and w: "walk fs (cur @ [s]) ss = Inr n"
    by (auto split: option.splits node.splits)
  show ?case
  proof (cases i)
    case 0
    with d show ?thesis by simp
  next
    case (Suc j)
    with Cons.prems(2) have "j < length ss" by simp
    from Cons.IH [OF w this] Suc show ?thesis by simp
  qed
qed

lemma walk_cong:
  "(\<And>i. i \<le> length rest \<Longrightarrow> map_of fs (cur @ take i rest) = map_of fs' (cur @ take i rest)) \<Longrightarrow>
   walk fs cur rest = walk fs' cur rest"
proof (induction rest arbitrary: cur)
  case Nil
  from Nil [of 0] show ?case by simp
next
  case (Cons s ss)
  have c: "map_of fs cur = map_of fs' cur"
    using Cons.prems [of 0] by simp
  have "walk fs (cur @ [s]) ss = walk fs' (cur @ [s]) ss"
  proof (rule Cons.IH)
    fix i assume "i \<le> length ss"
    then show "map_of fs ((cur @ [s]) @ take i ss) = map_of fs' ((cur @ [s]) @ take i ss)"
      using Cons.prems [of "Suc i"] by simp
  qed
  with c show ?case
    by (simp split: option.splits node.splits)
qed

lemma walk_dirs_Inr:
  "(\<And>i. i < length rest \<Longrightarrow> map_of fs (cur @ take i rest) = Some Dir) \<Longrightarrow>
   map_of fs (cur @ rest) = Some n \<Longrightarrow> walk fs cur rest = Inr n"
proof (induction rest arbitrary: cur)
  case Nil
  then show ?case by simp
next
  case (Cons s ss)
  have c: "map_of fs cur = Some Dir"
    using Cons.prems(1) [of 0] by simp
  have "walk fs (cur @ [s]) ss = Inr n"
  proof (rule Cons.IH)
    fix i assume "i < length ss"
    then show "map_of fs ((cur @ [s]) @ take i ss) = Some Dir"
      using Cons.prems(1) [of "Suc i"] by simp
  next
    show "map_of fs ((cur @ [s]) @ ss) = Some n"
      using Cons.prems(2) by simp
  qed
  with c show ?case by simp
qed

lemma walk_snoc:
  "walk fs cur (ss @ [s]) =
     (case walk fs cur ss of
        Inl e \<Rightarrow> Inl e
      | Inr Dir \<Rightarrow> (case map_of fs (cur @ ss @ [s]) of None \<Rightarrow> Inl ENOENT | Some n \<Rightarrow> Inr n)
      | Inr (File b r) \<Rightarrow> Inl ENOTDIR)"
proof (induction ss arbitrary: cur)
  case Nil
  then show ?case by (simp split: option.splits node.splits)
next
  case (Cons a ss)
  from Cons [of "cur @ [a]"] show ?case
    by (simp split: option.splits node.splits)
qed

lemma trailing_abs_path:
  "list_all valid_name k \<Longrightarrow> k \<noteq> [] \<Longrightarrow> \<not> trailingSeparator (abs_path k)"
  unfolding abs_path_def using not_trailing_join [of k "''/''"] by simp

lemma statSync_abs:
  "list_all valid_name k \<Longrightarrow> k \<noteq> [] \<Longrightarrow> statSync fs (abs_path k) = walk fs [] k"
  by (auto simp: statSync_def segments_abs_path trailing_abs_path split: sum.splits node.splits)

lemma statSync_abs_dir:
  "list_all valid_name k \<Longrightarrow> statSync fs (abs_path k) = Inr Dir \<longleftrightarrow> walk fs [] k = Inr Dir"
  by (auto simp: statSync_def segments_abs_path split: sum.splits node.splits if_splits)


lemma map_of_update: "map_of (AList.update k v fs) k' = (if k' = k then Some v else map_of fs k')"
  by (simp add: update_conv')

lemma filter_update_other:
  "(\<And>n. \<not> P (k, n)) \<Longrightarrow> filter P (AList.update k v fs) = filter P fs"
  by (induction fs) auto

lemma map_of_removeSync:
  "map_of (removeSync fs p) k = (if prefix (segments p) k then None else map_of fs k)"
  unfolding removeSync_def by (induction fs) auto

lemma valid_fs_update: "valid_fs fs \<Longrightarrow> list_all valid_name k \<Longrightarrow> valid_fs (AList.update k v fs)"
  unfolding valid_fs_def by (induction fs) auto

lemma valid_fs_removeSync: "valid_fs fs \<Longrightarrow> valid_fs (removeSync fs p)"
  by (auto simp: valid_fs_def removeSync_def list_all_iff)

lemma valid_fs_append: "valid_fs (a @ b) \<longleftrightarrow> valid_fs a \<and> valid_fs b"
  by (simp add: valid_fs_def)

subsection \<open>Creating directories\<close>
lemma map_of_append_None: "map_of (a @ b) k = None \<longleftrightarrow> map_of a k = None \<and> map_of b k = None"
  by (simp add: map_add_None)

lemma map_of_append_Some: "map_of a k = Some v \<Longrightarrow> map_of (a @ b) k = Some v"
  by (simp add: map_add_Some_iff)

lemma map_of_append_left_None: "map_of a k = None \<Longrightarrow> map_of (a @ b) k = map_of b k"
  by (simp add: map_add_def split: option.splits)

lemma fresh_dirs_Nil [simp]: "fresh_dirs fs cur target []"
  by (simp add: fresh_dirs_def)

lemma fresh_dirs_lookup:
  "fresh_dirs fs cur target new \<Longrightarrow> map_of new k = Some n \<Longrightarrow>
   n = Dir \<and> map_of fs k = None \<and> strict_prefix cur k \<and> prefix k target"
  unfolding fresh_dirs_def by (induction new) (auto split: if_splits)

lemma make_dirs_final:
  "make_dirs fs cur ss = Inr fs' \<or> make_dirs fs cur ss = Inl (e, fs') \<Longrightarrow>
   \<exists>new. fs' = fs @ new \<and> fresh_dirs fs cur (cur @ ss) new"
proof (induction ss arbitrary: fs cur)
  case Nil
  then show ?case by auto
next
  case (Cons s ss)
  let ?k = "cur @ [s]"
  show ?case
  proof (cases "map_of fs ?k")
    case None
    with Cons.prems have "make_dirs (fs @ [(?k, Dir)]) ?k ss = Inr fs' \<or>
        make_dirs (fs @ [(?k, Dir)]) ?k ss = Inl (e, fs')"
      by simp
    from Cons.IH [OF this] obtain new where n: "fs' = (fs @ [(?k, Dir)]) @ new"
      and f: "fresh_dirs (fs @ [(?k, Dir)]) ?k (?k @ ss) new"
      by blast
    have "fresh_dirs fs cur (cur @ s # ss) ((?k, Dir) # new)"
      using f None unfolding fresh_dirs_def
      by (auto simp: list_all_iff map_of_append_None strict_prefix_def prefix_def)
    with n show ?thesis
      by (intro exI [of _ "(?k, Dir) # new"]) simp
  next
    case (Some n)
    show ?thesis
    proof (cases n)
      case Dir
      with Some Cons.prems have "make_dirs fs ?k ss = Inr fs' \<or> make_dirs fs ?k ss = Inl (e, fs')"
        by simp
      from Cons.IH [OF this] obtain new where n: "fs' = fs @ new"
        and f: "fresh_dirs fs ?k (?k @ ss) new"
        by blast
      have "fresh_dirs fs cur (cur @ s # ss) new"
        using f unfolding fresh_dirs_def
        by (auto simp: list_all_iff strict_prefix_def prefix_def)
      with n show ?thesis by blast
    next
      case (File b r)
      with Some Cons.prems show ?thesis by auto
    qed
  qed
qed

lemma make_dirs_Inr_dirs:
  "make_dirs fs cur ss = Inr fs' \<Longrightarrow> 0 < i \<Longrightarrow> i \<le> length ss \<Longrightarrow>
   map_of fs' (cur @ take i ss) = Some Dir"
proof (induction ss arbitrary: fs cur i)
  case Nil
  then show ?case by simp
next
  case (Cons s ss)
  let ?k = "cur @ [s]"
  have "\<exists>fs1. make_dirs fs1 ?k ss = Inr fs' \<and> map_of fs1 ?k = Some Dir"
  proof (cases "map_of fs ?k")
    case None
    then have "map_of (fs @ [(?k, Dir)]) ?k = Some Dir"
      by (simp add: map_add_def)
    moreover from None Cons.prems(1) have "make_dirs (fs @ [(?k, Dir)]) ?k ss = Inr fs'"
      by simp
    ultimately show ?thesis by blast
  next
    case (Some n)
    with Cons.prems(1) show ?thesis
      by (cases n) auto
  qed
  then obtain fs1 where m: "make_dirs fs1 ?k ss = Inr fs'" and k: "map_of fs1 ?k = Some Dir"
    by blast
  show ?case
  proof (cases "i = 1")
    case True
    from make_dirs_final [of fs1 ?k ss fs'] m obtain new where "fs' = fs1 @ new"
      by blast
    with k True show ?thesis
      by (simp add: map_of_append_Some)
  next
    case False
    with Cons.prems obtain j where j: "i = Suc j" "0 < j" "j \<le> length ss"
      by (cases i) auto
    from Cons.IH [OF m j(2,3)] j(1) show ?thesis by simp
  qed
qed

lemma make_dirs_sim:
  assumes "\<And>i. 0 < i \<Longrightarrow> i \<le> length ss \<Longrightarrow>
             map_of x (cur @ take i ss) = map_of y (cur @ take i ss)"
    and "make_dirs x cur ss = Inr x'"
  shows "\<exists>new. x' = x @ new \<and> make_dirs y cur ss = Inr (y @ new)"
  using assms
proof (induction ss arbitrary: x y cur)
  case Nil
  then show ?case by simp
next
  case (Cons s ss)
  let ?k = "cur @ [s]"
  have e: "map_of x ?k = map_of y ?k"
    using Cons.prems(1) [of 1] by simp
  show ?case
  proof (cases "map_of x ?k")
    case None
    have "\<exists>new. x' = (x @ [(?k, Dir)]) @ new \<and>
        make_dirs (y @ [(?k, Dir)]) ?k ss = Inr ((y @ [(?k, Dir)]) @ new)"
    proof (rule Cons.IH)
      fix i assume i: "0 < i" "i \<le> length ss"
      then have "map_of x (cur @ take (Suc i) (s # ss)) = map_of y (cur @ take (Suc i) (s # ss))"
        by (intro Cons.prems(1)) simp_all
      then show "map_of (x @ [(?k, Dir)]) (?k @ take i ss) = map_of (y @ [(?k, Dir)]) (?k @ take i ss)"
        by (simp add: map_add_def)
    next
      show "make_dirs (x @ [(?k, Dir)]) ?k ss = Inr x'"
        using Cons.prems(2) None by simp
    qed
    then obtain new where "x' = (x @ [(?k, Dir)]) @ new"
      "make_dirs (y @ [(?k, Dir)]) ?k ss = Inr ((y @ [(?k, Dir)]) @ new)"
      by blast
    with None e show ?thesis
      by (intro exI [of _ "(?k, Dir) # new"]) simp
  next
    case (Some n)
    with Cons.prems(2) have n: "n = Dir" and m: "make_dirs x ?k ss = Inr x'"
      by (auto split: node.splits)
    have "\<exists>new. x' = x @ new \<and> make_dirs y ?k ss = Inr (y @ new)"
    proof (rule Cons.IH)
      fix i assume i: "0 < i" "i \<le> length ss"
      then have "map_of x (cur @ take (Suc i) (s # ss)) = map_of y (cur @ take (Suc i) (s # ss))"
        by (intro Cons.prems(1)) simp_all
      then show "map_of x (?k @ take i ss) = map_of y (?k @ take i ss)"
        by simp
    qed (rule m)
    with Some n e show ?thesis by simp
  qed
qed

subsection \<open>The callback, spelled out\<close>
lemma existsSync_abs:
  "list_all valid_name k \<Longrightarrow> k \<noteq> [] \<Longrightarrow>
   existsSync fs (abs_path k) = (case walk fs [] k of Inl _ \<Rightarrow> False | Inr _ \<Rightarrow> True)"
  by (simp add: existsSync_def statSync_abs)

lemma ensureDirSync_abs:
  "list_all valid_name k \<Longrightarrow> ensureDirSync fs (abs_path k) = make_dirs fs [] k"
  by (simp add: ensureDirSync_def segments_abs_path)

lemma copySync_file:
  assumes "list_all valid_name S" "list_all valid_name (D @ [h])" "S \<noteq> []" "D \<noteq> []"
    "S \<noteq> D @ [h]" "walk fs [] S = Inr (File b True)"
  shows "copySync fs (abs_path S) (abs_path (D @ [h])) =
     (case walk fs [] (D @ [h]) of
        Inl e \<Rightarrow>
          (if e \<noteq> ENOENT then Inl (e, fs)
           else (case (if (case walk fs [] D of Inl _ \<Rightarrow> False | Inr _ \<Rightarrow> True) then Inr fs
                       else make_dirs fs [] D) of
                   Inl x \<Rightarrow> Inl x
                 | Inr fs1 \<Rightarrow> Inr (AList.update (D @ [h]) (File b True) fs1)))
      | Inr Dir \<Rightarrow> Inl (ERR_DIR_BY_NON_DIR, fs)
      | Inr (File _ _) \<Rightarrow> Inr (AList.update (D @ [h]) (File b True) fs))"
proof -
  have vD: "list_all valid_name D"
    using assms(2) by simp
  have s: "statSync fs (abs_path S) = Inr (File b True)"
    using assms(1,3,6) by (simp add: statSync_abs)
  have d: "statSync fs (abs_path (D @ [h])) = walk fs [] (D @ [h])"
    using assms(2) by (intro statSync_abs) simp_all
  have dn: "path_dirname (abs_path (D @ [h])) = abs_path D"
    using assms(2) by (rule path_dirname_abs)
  have sg: "segments (abs_path S) = S" "segments (abs_path (D @ [h])) = D @ [h]"
    using assms(1,2) by (simp_all add: segments_abs_path)
  show ?thesis
    unfolding copySync_def s d dn sg
    using assms(5) vD assms(4)
    by (simp add: existsSync_abs ensureDirSync_abs split: sum.splits node.splits)
qed

lemma readFileSync_abs:
  "list_all valid_name k \<Longrightarrow> k \<noteq> [] \<Longrightarrow>
   readFileSync fs (abs_path k) =
     (case walk fs [] k of
        Inl e \<Rightarrow> Inl e
      | Inr Dir \<Rightarrow> Inl EISDIR
      | Inr (File b r) \<Rightarrow> (if r then Inr b else Inl EACCES))"
  by (simp add: readFileSync_def statSync_abs)

lemma content_ne_public: "rs @ [''content''] @ ds @ [f] \<noteq> (rs @ [''public'', ''content''] @ ds) @ [h]"
  by simp

lemma processFile_explicit:
  assumes "REPO_ROOT dn = abs_path rs" "list_all valid_name rs" "list_all valid_name (ds @ [f])"
  shows "processFile dn fs cat (js_join ''/'' (ds @ [f])) =
     (case walk fs [] (rs @ [''content''] @ ds @ [f]) of
        Inl e \<Rightarrow> Inl (e, fs)
      | Inr Dir \<Rightarrow> Inl (EISDIR, fs)
      | Inr (File b r) \<Rightarrow>
          (if \<not> r then Inl (EACCES, fs)
           else
             (case
                (case walk fs [] ((rs @ [''public'', ''content''] @ ds) @ [hashedName f (fingerprint b)]) of
                   Inl e \<Rightarrow>
                     (if e \<noteq> ENOENT then Inl (e, fs)
                      else (case (if (case walk fs [] (rs @ [''public'', ''content''] @ ds) of
                                        Inl _ \<Rightarrow> False | Inr _ \<Rightarrow> True)
                                  then Inr fs
                                  else make_dirs fs [] (rs @ [''public'', ''content''] @ ds)) of
                              Inl x \<Rightarrow> Inl x
                            | Inr fs1 \<Rightarrow>
                                Inr (AList.update
                                       ((rs @ [''public'', ''content''] @ ds) @ [hashedName f (fingerprint b)])
                                       (File b True) fs1)))
                 | Inr Dir \<Rightarrow> Inl (ERR_DIR_BY_NON_DIR, fs)
                 | Inr (File _ _) \<Rightarrow>
                     Inr (AList.update
                            ((rs @ [''public'', ''content''] @ ds) @ [hashedName f (fingerprint b)])
                            (File b True) fs)) of
                Inl x \<Rightarrow> Inl x
              | Inr fs' \<Rightarrow>
                  Inr (fs', obj_set cat (js_join ''/'' (ds @ [f]))
                         (abs_path ([''content''] @ ds @ [hashedName f (fingerprint b)]))))))"
proof -
  let ?S = "rs @ [''content''] @ ds @ [f]"
  let ?D = "rs @ [''public'', ''content''] @ ds"
  have vS: "list_all valid_name ?S" "?S \<noteq> []"
    using assms(2,3) by (simp_all add: valid_name_def)
  have vh: "valid_name (hashedName f (fingerprint b))" for b
    using assms(3) by (intro valid_fingerprint_name) simp
  have vD: "list_all valid_name (?D @ [hashedName f (fingerprint b)])" "?D \<noteq> []" for b
    using assms(2,3) vh [of b] by (simp_all add: valid_name_def)
  have src: "posix_join [CONTENT_DIR dn, js_join ''/'' (ds @ [f])] = abs_path ?S"
    using assms by (rule src_path)
  have dest: "posix_join [PUBLIC_CONTENT_DIR dn, outputRel (js_join ''/'' (ds @ [f])) (fingerprint b)]
      = abs_path (?D @ [hashedName f (fingerprint b)])" for b
    using dest_path [OF assms vh [of b]] by simp
  have url: "''/'' @ posix_join [''content'', outputRel (js_join ''/'' (ds @ [f])) (fingerprint b)]
      = abs_path ([''content''] @ ds @ [hashedName f (fingerprint b)])" for b
    using assms(3) vh [of b] by (rule url_path)
  have rd: "readFileSync fs (abs_path ?S) =
     (case walk fs [] ?S of
        Inl e \<Rightarrow> Inl e
      | Inr Dir \<Rightarrow> Inl EISDIR
      | Inr (File b r) \<Rightarrow> (if r then Inr b else Inl EACCES))"
    using vS by (rule readFileSync_abs)
  show ?thesis
  proof (cases "walk fs [] ?S")
    case (Inl e)
    with rd show ?thesis
      unfolding processFile_def src by (simp add: Let_def)
  next
    case (Inr n)
    show ?thesis
    proof (cases n)
      case Dir
      with Inr rd show ?thesis
        unfolding processFile_def src by (simp add: Let_def)
    next
      case (File b r)
      show ?thesis
      proof (cases r)
        case False
        with Inr File rd show ?thesis
          unfolding processFile_def src by (simp add: Let_def)
      next
        case True
        with Inr File have w: "walk fs [] ?S = Inr (File b True)"
          by simp
        have c: "copySync fs (abs_path ?S) (abs_path (?D @ [hashedName f (fingerprint b)])) =
          (case walk fs [] (?D @ [hashedName f (fingerprint b)]) of
             Inl e \<Rightarrow>
               (if e \<noteq> ENOENT then Inl (e, fs)
                else (case (if (case walk fs [] ?D of Inl _ \<Rightarrow> False | Inr _ \<Rightarrow> True) then Inr fs
                            else make_dirs fs [] ?D) of
                        Inl x \<Rightarrow> Inl x
                      | Inr fs1 \<Rightarrow> Inr (AList.update (?D @ [hashedName f (fingerprint b)]) (File b True) fs1)))
           | Inr Dir \<Rightarrow> Inl (ERR_DIR_BY_NON_DIR, fs)
           | Inr (File _ _) \<Rightarrow> Inr (AList.update (?D @ [hashedName f (fingerprint b)]) (File b True) fs))"
          using vS(1) vD(1) vS(2) vD(2) content_ne_public w by (rule copySync_file)
        have "readFileSync fs (abs_path ?S) = Inr b"
          using w rd by simp
        then show ?thesis
          unfolding processFile_def src Let_def
          by (simp only: sum.case dest url c w node.case True if_True not_True_eq_False if_False)
      qed
    qed
  qed
qed

subsection \<open>What a call of the callback does\<close>
lemma take_prefix_dirs:
  assumes "walk fs [] (D @ [h]) = Inr n" "i \<le> length D"
  shows "map_of fs (take i D) = Some Dir"
  using walk_Inr_dirs [OF assms(1), of i] assms(2) by simp

lemma processFile_Inr:
  assumes "REPO_ROOT dn = abs_path rs" "list_all valid_name rs" "list_all valid_name (ds @ [f])"
    and "processFile dn fs cat (js_join ''/'' (ds @ [f])) = Inr (fs', cat')"
  shows "\<exists>b new.
      walk fs [] (rs @ [''content''] @ ds @ [f]) = Inr (File b True) \<and>
      fresh_dirs fs [] (rs @ [''public'', ''content''] @ ds) new \<and>
      fs' = AList.update ((rs @ [''public'', ''content''] @ ds) @ [hashedName f (fingerprint b)])
              (File b True) (fs @ new) \<and>
      (\<forall>i \<le> length (rs @ [''public'', ''content''] @ ds).
          map_of (fs @ new) (take i (rs @ [''public'', ''content''] @ ds)) = Some Dir) \<and>
      cat' = obj_set cat (js_join ''/'' (ds @ [f]))
               (abs_path ([''content''] @ ds @ [hashedName f (fingerprint b)]))"
proof -
  let ?S = "rs @ [''content''] @ ds @ [f]"
  let ?D = "rs @ [''public'', ''content''] @ ds"
  note e = processFile_explicit [OF assms(1-3), of fs cat]
  from assms(4) e obtain b where w: "walk fs [] ?S = Inr (File b True)"
    by (auto split: sum.splits node.splits if_splits)
  let ?h = "hashedName f (fingerprint b)"
  let ?cat = "obj_set cat (js_join ''/'' (ds @ [f])) (abs_path ([''content''] @ ds @ [?h]))"
  have root: "map_of fs [] = Some Dir"
    using walk_Inr_dirs [OF w, of 0] by simp
  from assms(4) e w have c: "cat' = ?cat"
    by (auto split: sum.splits node.splits if_splits)
  from assms(4) e w have inner:
    "(case walk fs [] (?D @ [?h]) of
        Inl e \<Rightarrow>
          (if e \<noteq> ENOENT then Inl (e, fs)
           else (case (if (case walk fs [] ?D of Inl _ \<Rightarrow> False | Inr _ \<Rightarrow> True) then Inr fs
                       else make_dirs fs [] ?D) of
                   Inl x \<Rightarrow> Inl x
                 | Inr fs1 \<Rightarrow> Inr (AList.update (?D @ [?h]) (File b True) fs1)))
      | Inr Dir \<Rightarrow> Inl (ERR_DIR_BY_NON_DIR, fs)
      | Inr (File _ _) \<Rightarrow> Inr (AList.update (?D @ [?h]) (File b True) fs)) = Inr fs'"
    by (auto split: sum.splits node.splits if_splits)
  have "\<exists>new. fresh_dirs fs [] ?D new \<and> fs' = AList.update (?D @ [?h]) (File b True) (fs @ new) \<and>
      (\<forall>i \<le> length ?D. map_of (fs @ new) (take i ?D) = Some Dir)"
  proof (cases "walk fs [] (?D @ [?h])")
    case (Inr n)
    with inner have "fs' = AList.update (?D @ [?h]) (File b True) (fs @ [])"
      by (auto split: node.splits)
    moreover have "\<forall>i \<le> length ?D. map_of (fs @ []) (take i ?D) = Some Dir"
      using take_prefix_dirs [OF Inr] by simp
    ultimately show ?thesis
      using fresh_dirs_Nil by blast
  next
    case (Inl err)
    with inner have en: "err = ENOENT"
      by (auto split: if_splits)
    show ?thesis
    proof (cases "walk fs [] ?D")
      case (Inr n)
      with Inl en inner have f: "fs' = AList.update (?D @ [?h]) (File b True) (fs @ [])"
        by simp
      from Inl en Inr have "n = Dir"
        using walk_snoc [of fs "[]" ?D ?h] by (auto split: node.splits option.splits)
      with Inr have wd: "walk fs [] ?D = Inr Dir"
        by simp
      have "\<forall>i \<le> length ?D. map_of (fs @ []) (take i ?D) = Some Dir"
      proof (intro allI impI)
        fix i assume i: "i \<le> length ?D"
        show "map_of (fs @ []) (take i ?D) = Some Dir"
        proof (cases "i = length ?D")
          case True
          with walk_Inr_lookup [OF wd] show ?thesis by simp
        next
          case False
          with i have "i < length ?D" by simp
          from walk_Inr_dirs [OF wd this] show ?thesis by simp
        qed
      qed
      with f show ?thesis
        using fresh_dirs_Nil by blast
    next
      case il: (Inl err2)
      with Inl en inner obtain fs1 where m: "make_dirs fs [] ?D = Inr fs1"
        and f: "fs' = AList.update (?D @ [?h]) (File b True) fs1"
        by (auto split: sum.splits)
      from make_dirs_final [of fs "[]" ?D fs1] m obtain new where n: "fs1 = fs @ new"
        and fr: "fresh_dirs fs [] ([] @ ?D) new"
        by blast
      have "\<forall>i \<le> length ?D. map_of (fs @ new) (take i ?D) = Some Dir"
      proof (intro allI impI)
        fix i assume i: "i \<le> length ?D"
        show "map_of (fs @ new) (take i ?D) = Some Dir"
        proof (cases "i = 0")
          case True
          with root show ?thesis by (simp add: map_of_append_Some)
        next
          case False
          with make_dirs_Inr_dirs [OF m, of i] i n show ?thesis by simp
        qed
      qed
      with n f fr show ?thesis
        by auto
    qed
  qed
  with w c show ?thesis
    by blast
qed

lemma processFile_Inl:
  assumes "REPO_ROOT dn = abs_path rs" "list_all valid_name rs" "list_all valid_name (ds @ [f])"
    and "processFile dn fs cat (js_join ''/'' (ds @ [f])) = Inl (e, fs')"
  shows "\<exists>new. fs' = fs @ new \<and> fresh_dirs fs [] (rs @ [''public'', ''content''] @ ds) new"
proof -
  let ?D = "rs @ [''public'', ''content''] @ ds"
  note ex = processFile_explicit [OF assms(1-3), of fs cat]
  have "fs' = fs \<or> make_dirs fs [] ?D = Inl (e, fs')"
    using assms(4) unfolding ex
    by (auto split: sum.splits node.splits if_splits)
  then show ?thesis
  proof
    assume "fs' = fs"
    then have "fs' = fs @ []" by simp
    then show ?thesis
      using fresh_dirs_Nil by blast
  next
    assume "make_dirs fs [] ?D = Inl (e, fs')"
    with make_dirs_final [of fs "[]" ?D fs' e] show ?thesis
      by simp
  qed
qed

subsection \<open>Scanning and clearing\<close>
lemma not_under_both:
  "strict_prefix (rs @ [''content'']) k \<Longrightarrow> \<not> prefix (rs @ [''public'', ''content'']) k"
  by (auto simp: strict_prefix_def prefix_def)

lemma map_of_subtree: "prefix c k \<Longrightarrow> map_of (subtree c fs) k = map_of fs k"
  unfolding subtree_def by (induction fs) auto

lemma subtree_append: "subtree c (a @ b) = subtree c a @ subtree c b"
  by (simp add: subtree_def)

lemma subtree_fresh_dirs:
  assumes "fresh_dirs fs cur t new" "\<And>k. prefix k t \<Longrightarrow> \<not> prefix c k"
  shows "subtree c new = []"
  using assms(1) unfolding fresh_dirs_def subtree_def
  by (induction new) (auto dest: assms(2))

lemma subtree_update: "\<not> prefix c k \<Longrightarrow> subtree c (AList.update k v fs) = subtree c fs"
  unfolding subtree_def by (rule filter_update_other) simp

lemma content_not_public: "prefix k (rs @ [''public'', ''content''] @ ds) \<Longrightarrow> \<not> prefix (rs @ [''content'']) k"
  by (auto simp: prefix_def append_eq_append_conv2 Cons_eq_append_conv)

lemma content_not_src: "prefix k (rs @ ''src'' # ds) \<Longrightarrow> \<not> prefix (rs @ [''content'']) k"
  by (auto simp: prefix_def append_eq_append_conv2 Cons_eq_append_conv)

lemma utf8_decode_Nil: "utf8_decode s = [] \<longleftrightarrow> s = []"
  by (cases s) (auto split: option.splits)

lemma set_utf8_decode: "set (utf8_decode s) \<subseteq> set s \<union> {CHR 0xEF, CHR 0xBF, CHR 0xBD}"
proof (induction s rule: utf8_decode.induct)
  case 1
  show ?case by simp
next
  case (2 c cs)
  show ?case
  proof (cases "(of_char c :: nat) < 0x80")
    case True
    with 2(1) show ?thesis
      by auto
  next
    case False
    show ?thesis
    proof (cases "utf8_tail (of_char c)")
      case None
      with False 2(2) show ?thesis
        by auto
    next
      case (Some t)
      obtain need lo hi where t: "t = (need, lo, hi)"
        by (cases t)
      show ?thesis
      proof (cases "utf8_cont need lo hi cs = need")
        case True
        from 2(3) [OF False Some [unfolded t] refl refl True] False Some t True show ?thesis
          by (auto dest: in_set_takeD in_set_dropD)
      next
        case f: False
        from 2(4) [OF False Some [unfolded t] refl refl f] False Some t f show ?thesis
          by (auto dest: in_set_dropD)
      qed
    qed
  qed
qed

lemma utf8_decode_head:
  "\<not> (of_char c :: nat) < 0x80 \<Longrightarrow>
   \<exists>d ds. utf8_decode (c # cs) = d # ds \<and> \<not> (of_char d :: nat) < 0x80"
  by (auto split: option.splits)

lemma utf8_decode_dot:
  assumes "utf8_decode s = CHR ''.'' # r"
  shows "\<exists>cs. s = CHR ''.'' # cs \<and> utf8_decode cs = r"
proof (cases s)
  case Nil
  with assms show ?thesis by simp
next
  case (Cons c cs)
  show ?thesis
  proof (cases "(of_char c :: nat) < 0x80")
    case True
    with assms Cons show ?thesis
      by simp
  next
    case False
    from utf8_decode_head [OF this, of cs] assms Cons show ?thesis
      by auto
  qed
qed

lemma utf8_decode_valid:
  assumes "valid_name s"
  shows "valid_name (utf8_decode s)"
proof -
  from assms have s: "s \<noteq> []" "CHR ''/'' \<notin> set s" "s \<noteq> ''.''" "s \<noteq> ''..''"
    by (simp_all add: valid_name_def)
  have "utf8_decode s \<noteq> []"
    using s(1) by (simp add: utf8_decode_Nil)
  moreover have "CHR ''/'' \<notin> set (utf8_decode s)"
    using set_utf8_decode [of s] s(2) by auto
  moreover have "utf8_decode s \<noteq> ''.''"
  proof
    assume "utf8_decode s = ''.''"
    from utf8_decode_dot [OF this] s(3) show False
      by (auto simp: utf8_decode_Nil)
  qed
  moreover have "utf8_decode s \<noteq> ''..''"
  proof
    assume "utf8_decode s = ''..''"
    from utf8_decode_dot [OF this] obtain cs where c: "s = CHR ''.'' # cs" "utf8_decode cs = ''.''"
      by blast
    from utf8_decode_dot [OF c(2)] c(1) s(4) show False
      by (auto simp: utf8_decode_Nil)
  qed
  ultimately show ?thesis
    by (simp add: valid_name_def)
qed

lemma readdirSync_entry:
  assumes "readdirSync fs d = Inr es" "nt \<in> set es"
  shows "\<exists>kn \<in> set fs. fst kn \<noteq> [] \<and> fst nt = utf8_decode (last (fst kn))"
proof -
  from assms obtain kn where "kn \<in> set fs" "fst kn \<noteq> []"
    "nt = (utf8_decode (last (fst kn)), snd kn)"
    by (auto simp: readdirSync_def split: sum.splits node.splits)
  then show ?thesis
    by (intro bexI [of _ kn]) simp_all
qed

lemma read_level_entry:
  assumes "read_level fs cwd ps = Inr es" "e \<in> set es"
  shows "fst e \<in> set ps \<and> (\<exists>kn \<in> set fs. fst kn \<noteq> [] \<and> fst (snd e) = utf8_decode (last (fst kn)))"
  using assms
proof (induction ps arbitrary: es)
  case Nil
  then show ?case by simp
next
  case (Cons p ps)
  show ?case
  proof (cases "readdirSync fs (cwd @ p)")
    case (Inl er)
    with Cons.prems have "read_level fs cwd ps = Inr es"
      by (auto split: if_splits)
    from Cons.IH [OF this Cons.prems(2)] show ?thesis
      by auto
  next
    case (Inr ents)
    with Cons.prems(1) obtain rest where r: "read_level fs cwd ps = Inr rest"
      and es: "es = map (\<lambda>nt. (p, fst nt, snd nt)) ents @ rest"
      by (auto split: sum.splits)
    from Cons.prems(2) es consider nt where "nt \<in> set ents" "e = (p, fst nt, snd nt)"
      | "e \<in> set rest"
      by auto
    then show ?thesis
    proof cases
      case 1
      with readdirSync_entry [OF Inr 1(1)] show ?thesis
        by auto
    next
      case 2
      from Cons.IH [OF r 2] show ?thesis
        by auto
    qed
  qed
qed

lemma fg_walk_Nil: "fg_walk fs cwd dot [] = Inr []"
  by (subst fg_walk.simps) simp

lemma fg_walk_valid:
  "valid_fs fs \<Longrightarrow> fg_walk fs cwd dot qs = Inr found \<Longrightarrow>
   list_all (list_all valid_name) qs \<Longrightarrow> p \<in> set found \<Longrightarrow>
   p \<noteq> [] \<and> list_all valid_name p"
proof (induction fs cwd dot qs arbitrary: found rule: fg_walk.induct)
  case (1 fs cwd dot qs)
  note vfs = "1.prems"(1) and run = "1.prems"(2) and vqs = "1.prems"(3) and p = "1.prems"(4)
  show ?case
  proof (cases "qs = []")
    case True
    with run p show ?thesis
      by (simp add: fg_walk_Nil)
  next
    case False
    from run False obtain entries rest where
      r: "read_level fs cwd qs = Inr entries" and
      w: "fg_walk fs cwd dot (map entry_path (filter (\<lambda>e. snd (snd e) = Dir) entries)) = Inr rest" and
      f: "found = map entry_path
            (filter (\<lambda>e. snd (snd e) \<noteq> Dir \<and> fg_match dot (fst e) (fst (snd e))) entries) @ rest"
      by (subst (asm) fg_walk.simps) (auto split: sum.splits)
    have v: "entry_path e \<noteq> [] \<and> list_all valid_name (entry_path e)" if "e \<in> set entries" for e
    proof -
      from read_level_entry [OF r that] obtain kn where q: "fst e \<in> set qs"
        and kn: "kn \<in> set fs" "fst kn \<noteq> []" "fst (snd e) = utf8_decode (last (fst kn))"
        by blast
      from q vqs have "list_all valid_name (fst e)"
        by (simp add: list_all_iff)
      moreover from kn(1) vfs have "list_all valid_name (fst kn)"
        by (auto simp: valid_fs_def list_all_iff)
      with kn(2) have "valid_name (last (fst kn))"
        by (simp add: list_all_iff)
      then have "valid_name (fst (snd e))"
        unfolding kn(3) by (rule utf8_decode_valid)
      ultimately show ?thesis
        by (simp add: entry_path_def)
    qed
    from p f consider e where "e \<in> set entries" "p = entry_path e" | "p \<in> set rest"
      by auto
    then show ?thesis
    proof cases
      case 1
      with v show ?thesis by simp
    next
      case 2
      have "list_all (list_all valid_name) (map entry_path (filter (\<lambda>e. snd (snd e) = Dir) entries))"
        using v by (auto simp: list_all_iff)
      from "1.IH" [OF False r vfs w this 2] show ?thesis .
    qed
  qed
qed

lemma set_unique [simp]: "set (unique xs) = set xs"
  by (simp add: unique_def)

lemma getContentFiles_explicit:
  assumes "REPO_ROOT dn = abs_path rs" "list_all valid_name rs"
  shows "getContentFiles dn fs =
     (case fg_walk fs (rs @ [''content'']) False [[]] of
        Inl e \<Rightarrow> Inl e
      | Inr found \<Rightarrow> Inr (unique (map (js_join ''/'') found)))"
proof -
  have v: "list_all valid_name (rs @ [''content''])"
    using assms(2) by (simp add: valid_name_def)
  have c: "CONTENT_DIR dn = abs_path (rs @ [''content''])"
    using assms by (rule constants)
  have sg: "segments (abs_path (rs @ [''content''])) = rs @ [''content'']"
    using v by (rule segments_abs_path)
  have id: "map (\<lambda>e. js_join ''/'' (js_split (CHR ''/'') e)) xs = xs" for xs
    using js_join_split [of "CHR ''/''"] by (induction xs) simp_all
  show ?thesis
    unfolding getContentFiles_def scanRecursive_def fg_sync_def c sg
    by (simp add: id split: sum.splits)
qed

lemma scanned_names:
  assumes "REPO_ROOT dn = abs_path rs" "list_all valid_name rs" "valid_fs fs"
    and "getContentFiles dn fs = Inr files" "p \<in> set files"
  shows "\<exists>ds f. p = js_join ''/'' (ds @ [f]) \<and> list_all valid_name (ds @ [f])"
proof -
  from assms(4) obtain found where w: "fg_walk fs (rs @ [''content'']) False [[]] = Inr found"
    and f: "files = unique (map (js_join ''/'') found)"
    unfolding getContentFiles_explicit [OF assms(1,2)] by (auto split: sum.splits)
  from assms(5) f obtain q where q: "q \<in> set found" "p = js_join ''/'' q"
    by auto
  have "q \<noteq> [] \<and> list_all valid_name q"
    using assms(3) w _ q(1) by (rule fg_walk_valid) simp
  then obtain ds f where "q = ds @ [f]" "list_all valid_name (ds @ [f])"
    by (cases q rule: rev_cases) auto
  with q(2) show ?thesis
    by blast
qed

lemma fg_walk_missing:
  assumes "walk fs [] cwd = Inl ENOENT"
  shows "fg_walk fs cwd dot [[]] = Inr []"
proof -
  have "read_level fs cwd [[]] = Inr []"
    using assms by (simp add: readdirSync_def)
  then show ?thesis
    by (subst fg_walk.simps) (simp add: fg_walk_Nil)
qed

lemma walk_append:
  "walk fs cur (a @ b) = (case walk fs cur a of Inl e \<Rightarrow> Inl e | Inr n \<Rightarrow> walk fs (cur @ a) b)"
proof (induction a arbitrary: cur)
  case Nil
  show ?case
    by (cases b) (auto split: option.splits node.splits)
next
  case (Cons s ss)
  show ?case
    using Cons [of "cur @ [s]"] by (auto split: option.splits node.splits sum.splits)
qed

lemma readdirSync_cong:
  assumes "walk x [] c = walk y [] c" "subtree c x = subtree c y"
  shows "readdirSync x (c @ q) = readdirSync y (c @ q)"
proof -
  have "walk x c q = walk y c q"
  proof (rule walk_cong)
    fix i
    have "prefix c (c @ take i q)"
      by simp
    from map_of_subtree [OF this, of x] map_of_subtree [OF this, of y] assms(2)
    show "map_of x (c @ take i q) = map_of y (c @ take i q)"
      by simp
  qed
  with assms(1) have w: "walk x [] (c @ q) = walk y [] (c @ q)"
    by (simp add: walk_append split: sum.splits)
  have e: "filter (\<lambda>kn. fst kn \<noteq> [] \<and> butlast (fst kn) = c @ q) z
      = filter (\<lambda>kn. fst kn \<noteq> [] \<and> butlast (fst kn) = c @ q) (subtree c z)" for z
  proof -
    have "prefix c k" if "k \<noteq> []" "butlast k = c @ q" for k :: "string list"
    proof -
      from that(1) have "k = butlast k @ [last k]"
        by simp
      with that(2) have "k = c @ (q @ [last k])"
        by simp
      then show ?thesis
        by (metis prefixI)
    qed
    then show ?thesis
      unfolding subtree_def by (induction z) auto
  qed
  show ?thesis
    unfolding readdirSync_def w e [of x] e [of y] assms(2) ..
qed

lemma read_level_cong:
  assumes "walk x [] c = walk y [] c" "subtree c x = subtree c y"
  shows "read_level x c qs = read_level y c qs"
proof (induction qs)
  case Nil
  show ?case by simp
next
  case (Cons q qs)
  show ?case
    unfolding read_level.simps readdirSync_cong [OF assms] Cons.IH ..
qed

lemma fg_walk_cong:
  assumes "walk x [] c = walk y [] c" "subtree c x = subtree c y"
  shows "fg_walk x c dot qs = fg_walk y c dot qs"
  using assms
proof (induction x c dot qs rule: fg_walk.induct)
  case (1 x c dot qs)
  note rl = read_level_cong [OF "1.prems", of qs]
  show ?case
  proof (cases "qs = []")
    case True
    then show ?thesis
      by (simp add: fg_walk_Nil)
  next
    case False
    show ?thesis
    proof (cases "read_level x c qs")
      case (Inl e)
      with rl have ry: "read_level y c qs = Inl e"
        by simp
      have "fg_walk x c dot qs = Inl e"
        by (subst fg_walk.simps) (simp add: False Inl)
      moreover have "fg_walk y c dot qs = Inl e"
        by (subst fg_walk.simps) (simp add: False ry)
      ultimately show ?thesis
        by simp
    next
      case (Inr entries)
      with rl have ry: "read_level y c qs = Inr entries"
        by simp
      let ?next = "map entry_path (filter (\<lambda>e. snd (snd e) = Dir) entries)"
      let ?here = "map entry_path
          (filter (\<lambda>e. snd (snd e) \<noteq> Dir \<and> fg_match dot (fst e) (fst (snd e))) entries)"
      have ih: "fg_walk x c dot ?next = fg_walk y c dot ?next"
        using False Inr "1.prems" by (rule "1.IH")
      have "fg_walk x c dot qs =
          (case fg_walk x c dot ?next of Inl e \<Rightarrow> Inl e | Inr found \<Rightarrow> Inr (?here @ found))"
        by (subst fg_walk.simps) (simp add: False Inr)
      moreover have "fg_walk y c dot qs =
          (case fg_walk y c dot ?next of Inl e \<Rightarrow> Inl e | Inr found \<Rightarrow> Inr (?here @ found))"
        by (subst fg_walk.simps) (simp add: False ry)
      ultimately show ?thesis
        unfolding ih by simp
    qed
  qed
qed

lemma getContentFiles_cong:
  assumes "REPO_ROOT dn = abs_path rs" "list_all valid_name rs"
    and "walk x [] (rs @ [''content'']) = walk y [] (rs @ [''content''])"
    and "subtree (rs @ [''content'']) x = subtree (rs @ [''content'']) y"
  shows "getContentFiles dn x = getContentFiles dn y"
  unfolding getContentFiles_explicit [OF assms(1,2)] fg_walk_cong [OF assms(3,4)] ..

lemma removeSync_abs:
  "list_all valid_name k \<Longrightarrow> removeSync fs (abs_path k) = filter (\<lambda>kn. \<not> prefix k (fst kn)) fs"
  by (simp add: removeSync_def segments_abs_path)

lemma clearPublicContent_explicit:
  assumes "REPO_ROOT dn = abs_path rs" "list_all valid_name rs"
  shows "clearPublicContent dn fs =
     make_dirs (filter (\<lambda>kn. \<not> prefix (rs @ [''public'', ''content'']) (fst kn)) fs) []
       (rs @ [''public'', ''content''])"
proof -
  have v: "list_all valid_name (rs @ [''public'', ''content''])"
    using assms(2) by (simp add: valid_name_def)
  show ?thesis
    unfolding clearPublicContent_def constants(2) [OF assms]
    by (simp only: removeSync_abs [OF v] ensureDirSync_abs [OF v])
qed

lemma subtree_removed:
  "subtree (rs @ [''content''])
     (filter (\<lambda>kn. \<not> prefix (rs @ [''public'', ''content'']) (fst kn)) fs)
   = subtree (rs @ [''content'']) fs"
  unfolding subtree_def
  by (induction fs) (auto simp: prefix_def append_eq_append_conv2 Cons_eq_append_conv)

lemma clear_final:
  assumes "REPO_ROOT dn = abs_path rs" "list_all valid_name rs"
    and "clearPublicContent dn fs = Inr fs1 \<or> clearPublicContent dn fs = Inl (e, fs1)"
  shows "\<exists>new. fs1 = filter (\<lambda>kn. \<not> prefix (rs @ [''public'', ''content'']) (fst kn)) fs @ new \<and>
           fresh_dirs (filter (\<lambda>kn. \<not> prefix (rs @ [''public'', ''content'']) (fst kn)) fs) []
             (rs @ [''public'', ''content'']) new"
  using assms(3) unfolding clearPublicContent_explicit [OF assms(1,2)]
  using make_dirs_final [of _ "[]" "rs @ [''public'', ''content'']" fs1 e] by simp

lemma clear_subtree:
  assumes "REPO_ROOT dn = abs_path rs" "list_all valid_name rs"
    and "clearPublicContent dn fs = Inr fs1 \<or> clearPublicContent dn fs = Inl (e, fs1)"
  shows "subtree (rs @ [''content'']) fs1 = subtree (rs @ [''content'']) fs"
proof -
  from clear_final [OF assms] obtain new where
    n: "fs1 = filter (\<lambda>kn. \<not> prefix (rs @ [''public'', ''content'']) (fst kn)) fs @ new" and
    f: "fresh_dirs (filter (\<lambda>kn. \<not> prefix (rs @ [''public'', ''content'']) (fst kn)) fs) []
             (rs @ [''public'', ''content''] @ []) new"
    by auto
  have "subtree (rs @ [''content'']) new = []"
    using f content_not_public by (rule subtree_fresh_dirs)
  with n show ?thesis
    by (simp only: subtree_append subtree_removed append_Nil2)
qed

lemma map_of_filter_key:
  "map_of (filter (\<lambda>kn. \<not> prefix P (fst kn)) fs) k = (if prefix P k then None else map_of fs k)"
  by (induction fs) auto

lemma clear_lookup:
  assumes "REPO_ROOT dn = abs_path rs" "list_all valid_name rs"
    and "clearPublicContent dn fs = Inr fs1 \<or> clearPublicContent dn fs = Inl (e, fs1)"
  shows "map_of fs1 k = map_of fs k \<or> prefix (rs @ [''public'', ''content'']) k \<or>
         (strict_prefix k (rs @ [''public'', ''content'']) \<and> map_of fs k = None \<and> map_of fs1 k = Some Dir)"
proof -
  let ?P = "rs @ [''public'', ''content'']"
  let ?r = "filter (\<lambda>kn. \<not> prefix ?P (fst kn)) fs"
  from clear_final [OF assms] obtain new where n: "fs1 = ?r @ new" and f: "fresh_dirs ?r [] ?P new"
    by blast
  show ?thesis
  proof (cases "prefix ?P k")
    case True
    then show ?thesis by simp
  next
    case False
    then have r: "map_of ?r k = map_of fs k"
      by (simp add: map_of_filter_key)
    show ?thesis
    proof (cases "map_of fs k")
      case (Some v)
      with r n show ?thesis by (simp add: map_add_def)
    next
      case None
      show ?thesis
      proof (cases "map_of new k")
        case None
        with \<open>map_of fs k = None\<close> r n show ?thesis
          by (simp add: map_add_def)
      next
        case (Some v)
        from fresh_dirs_lookup [OF f Some] have "v = Dir" "prefix k ?P"
          by simp_all
        with False have "strict_prefix k ?P"
          by (auto simp: strict_prefix_def)
        with \<open>map_of fs k = None\<close> r n Some \<open>v = Dir\<close> show ?thesis
          by (simp add: map_add_def)
      qed
    qed
  qed
qed

lemma clear_Inr_dirs:
  assumes "REPO_ROOT dn = abs_path rs" "list_all valid_name rs"
    and "clearPublicContent dn fs = Inr fs1" "map_of fs [] = Some Dir"
  shows "walk fs1 [] (rs @ [''public'', ''content'']) = Inr Dir"
    and "\<And>k. strict_prefix (rs @ [''public'', ''content'']) k \<Longrightarrow> map_of fs1 k = None"
proof -
  let ?P = "rs @ [''public'', ''content'']"
  let ?r = "filter (\<lambda>kn. \<not> prefix ?P (fst kn)) fs"
  have m: "make_dirs ?r [] ?P = Inr fs1"
    using assms(3) unfolding clearPublicContent_explicit [OF assms(1,2)] .
  from make_dirs_final [of ?r "[]" ?P fs1] m obtain new where n: "fs1 = ?r @ new"
    and f: "fresh_dirs ?r [] ?P new"
    by auto
  have root: "map_of fs1 [] = Some Dir"
    using assms(4) n by (simp add: map_add_def map_of_filter_key)
  have d: "map_of fs1 (take i ?P) = Some Dir" if "i \<le> length ?P" for i
  proof (cases "i = 0")
    case True
    with root show ?thesis by simp
  next
    case False
    with make_dirs_Inr_dirs [OF m, of i] that show ?thesis by simp
  qed
  show "walk fs1 [] ?P = Inr Dir"
  proof (rule walk_dirs_Inr)
    fix i assume "i < length ?P"
    then show "map_of fs1 ([] @ take i ?P) = Some Dir"
      using d [of i] by simp
  next
    show "map_of fs1 ([] @ ?P) = Some Dir"
      using d [of "length ?P"] by simp
  qed
  fix k assume k: "strict_prefix ?P k"
  then have "map_of ?r k = None"
    by (simp add: map_of_filter_key strict_prefix_def)
  moreover have "map_of new k = None"
  proof (cases "map_of new k")
    case (Some v)
    from fresh_dirs_lookup [OF f Some] k show ?thesis
      by (auto simp: strict_prefix_def prefix_def)
  qed simp
  ultimately show "map_of fs1 k = None"
    using n by (simp add: map_add_def)
qed

subsection \<open>What the loop leaves alone\<close>
lemma rel_pathE:
  assumes "rel_path p"
  obtains ds f where "p = js_join ''/'' (ds @ [f])" "list_all valid_name (ds @ [f])"
proof -
  have ne: "js_split (CHR ''/'') p \<noteq> []"
    by (rule js_split_ne)
  then obtain ds f where d: "js_split (CHR ''/'') p = ds @ [f]"
    by (cases "js_split (CHR ''/'') p" rule: rev_cases) auto
  have "p = js_join ''/'' (js_split (CHR ''/'') p)"
    using js_join_split [of "CHR ''/''" p] by simp
  with d assms that show thesis
    by (simp add: rel_path_def)
qed

lemma rel_pathI: "list_all valid_name (ds @ [f]) \<Longrightarrow> rel_path (js_join ''/'' (ds @ [f]))"
  using js_split_join [of "ds @ [f]" "CHR ''/''"] valid_no_slash [of "ds @ [f]"]
  by (simp add: rel_path_def)

lemma scanned_rel_path:
  assumes "REPO_ROOT dn = abs_path rs" "list_all valid_name rs" "valid_fs fs"
    and "getContentFiles dn fs = Inr files"
  shows "list_all rel_path files"
  unfolding list_all_iff
proof
  fix p assume "p \<in> set files"
  from scanned_names [OF assms this] show "rel_path p"
    using rel_pathI by blast
qed

lemma prefix_append_cases: "prefix k (P @ ds) \<Longrightarrow> prefix k P \<or> strict_prefix P k"
  by (auto simp: prefix_append strict_prefix_def)

lemma walk_prefix_lookup:
  assumes "walk x [] P = Inr Dir" "prefix k P"
  shows "map_of x k = Some Dir"
proof -
  from assms(2) obtain zs where z: "P = k @ zs"
    by (auto simp: prefix_def)
  show ?thesis
  proof (cases "zs = []")
    case True
    with z walk_Inr_lookup [OF assms(1)] show ?thesis by simp
  next
    case False
    with z have "length k < length P" by simp
    from walk_Inr_dirs [OF assms(1) this] z show ?thesis by simp
  qed
qed

lemma fresh_append_frame:
  assumes "fresh_dirs x [] (P @ ds) new" "walk x [] P = Inr Dir" "\<not> strict_prefix P k"
  shows "map_of (x @ new) k = map_of x k"
proof (cases "map_of new k")
  case None
  then show ?thesis
    by (simp add: map_add_def split: option.splits)
next
  case (Some n)
  from fresh_dirs_lookup [OF assms(1) Some] have "map_of x k = None" "prefix k (P @ ds)"
    by simp_all
  with assms(3) prefix_append_cases [of k P ds] have "prefix k P"
    by blast
  from walk_prefix_lookup [OF assms(2) this] \<open>map_of x k = None\<close> show ?thesis
    by simp
qed

lemma processFile_frame:
  assumes "REPO_ROOT dn = abs_path rs" "list_all valid_name rs" "rel_path p"
    and "walk x [] (rs @ [''public'', ''content'']) = Inr Dir"
    and "processFile dn x cat p = Inr (y, cat') \<or> processFile dn x cat p = Inl (e, y)"
  shows "\<And>k. \<not> strict_prefix (rs @ [''public'', ''content'']) k \<Longrightarrow> map_of y k = map_of x k"
    and "subtree (rs @ [''content'']) y = subtree (rs @ [''content'']) x"
proof -
  let ?P = "rs @ [''public'', ''content'']"
  from assms(3) obtain ds f where p: "p = js_join ''/'' (ds @ [f])" and v: "list_all valid_name (ds @ [f])"
    by (rule rel_pathE)
  let ?D = "rs @ [''public'', ''content''] @ ds"
  have "\<exists>new. fresh_dirs x [] ?D new \<and>
      (y = x @ new \<or> (\<exists>h b. y = AList.update (?D @ [h]) (File b True) (x @ new)))"
    using assms(5)
  proof
    assume "processFile dn x cat p = Inr (y, cat')"
    from processFile_Inr [OF assms(1,2) v this [unfolded p]] obtain b new
      where "fresh_dirs x [] ?D new"
        "y = AList.update (?D @ [hashedName f (fingerprint b)]) (File b True) (x @ new)"
      by blast
    then show ?thesis
      by blast
  next
    assume "processFile dn x cat p = Inl (e, y)"
    from processFile_Inl [OF assms(1,2) v this [unfolded p]] show ?thesis
      by blast
  qed
  then obtain new where f: "fresh_dirs x [] ?D new"
    and y: "y = x @ new \<or> (\<exists>h b. y = AList.update (?D @ [h]) (File b True) (x @ new))"
    by blast
  have fl: "subtree (rs @ [''content'']) (x @ new) = subtree (rs @ [''content'']) x"
    using subtree_fresh_dirs [OF f content_not_public, of rs] by (simp add: subtree_append)
  have fu: "subtree (rs @ [''content'']) (AList.update (?D @ [h]) (File b True) (x @ new))
      = subtree (rs @ [''content'']) (x @ new)" for h b
    by (rule subtree_update) (auto simp: prefix_def append_eq_append_conv2 Cons_eq_append_conv)
  from y show "subtree (rs @ [''content'']) y = subtree (rs @ [''content'']) x"
  proof
    assume "y = x @ new"
    with fl show ?thesis by simp
  next
    assume "\<exists>h b. y = AList.update (?D @ [h]) (File b True) (x @ new)"
    then obtain h b where "y = AList.update (?D @ [h]) (File b True) (x @ new)"
      by blast
    with fu [of h b] fl show ?thesis by simp
  qed
  fix k assume k: "\<not> strict_prefix ?P k"
  have f': "fresh_dirs x [] (?P @ ds) new"
    using f by simp
  have a: "map_of (x @ new) k = map_of x k"
    using f' assms(4) k by (rule fresh_append_frame)
  from k have ne: "k \<noteq> ?D @ [h]" for h
    by (auto simp: strict_prefix_def prefix_def)
  from y show "map_of y k = map_of x k"
  proof
    assume "y = x @ new"
    with a show ?thesis by simp
  next
    assume "\<exists>h b. y = AList.update (?D @ [h]) (File b True) (x @ new)"
    then obtain h b where "y = AList.update (?D @ [h]) (File b True) (x @ new)"
      by blast
    with a ne [of h] show ?thesis
      by (simp only: map_of_update if_False)
  qed
qed

lemma walk_public_kept:
  assumes "walk x [] P = Inr Dir" "\<And>k. \<not> strict_prefix P k \<Longrightarrow> map_of y k = map_of x k"
  shows "walk y [] P = Inr Dir"
proof -
  have "walk y [] P = walk x [] P"
  proof (rule walk_cong)
    fix i assume "i \<le> length P"
    have "\<not> strict_prefix P (take i P)"
      by (metis prefix_order.less_asym' strict_prefix_def take_is_prefix prefix_order.dual_order.strict_iff_order)
    then show "map_of y ([] @ take i P) = map_of x ([] @ take i P)"
      using assms(2) by simp
  qed
  with assms(1) show ?thesis by simp
qed

lemma forEach_frame:
  assumes "REPO_ROOT dn = abs_path rs" "list_all valid_name rs" "list_all rel_path files"
    and "walk x [] (rs @ [''public'', ''content'']) = Inr Dir"
    and "forEach_processFile dn x cat files = Inr (y, cat') \<or>
         forEach_processFile dn x cat files = Inl (e, y)"
  shows "(\<forall>k. \<not> strict_prefix (rs @ [''public'', ''content'']) k \<longrightarrow> map_of y k = map_of x k) \<and>
         subtree (rs @ [''content'']) y = subtree (rs @ [''content'']) x"
  using assms(3-5)
proof (induction files arbitrary: x cat)
  case Nil
  then show ?case by auto
next
  case (Cons p ps)
  have rp: "rel_path p" and rps: "list_all rel_path ps"
    using Cons.prems(1) by simp_all
  show ?case
  proof (cases "processFile dn x cat p")
    case (Inl a)
    with Cons.prems(3) have "processFile dn x cat p = Inl (e, y)"
      by simp
    then have "processFile dn x cat p = Inr (y, cat') \<or> processFile dn x cat p = Inl (e, y)"
      by simp
    from processFile_frame [OF assms(1,2) rp Cons.prems(2) this] show ?thesis
      by simp
  next
    case (Inr b)
    obtain x1 c1 where b: "b = (x1, c1)"
      by (cases b)
    with Inr have s: "processFile dn x cat p = Inr (x1, c1) \<or> processFile dn x cat p = Inl (e, x1)"
      by simp
    note fr = processFile_frame [OF assms(1,2) rp Cons.prems(2) s]
    have w1: "walk x1 [] (rs @ [''public'', ''content'']) = Inr Dir"
      using Cons.prems(2) fr(1) by (rule walk_public_kept)
    from Inr b Cons.prems(3) have "forEach_processFile dn x1 c1 ps = Inr (y, cat') \<or>
         forEach_processFile dn x1 c1 ps = Inl (e, y)"
      by simp
    from Cons.IH [OF rps w1 this] fr show ?thesis
      by simp
  qed
qed

subsection \<open>Changes of a run stay in their place\<close>
lemma confined_refl: "confined rs a a"
  by (simp add: confined_def)

lemma confined_trans:
  assumes "confined rs a b" "confined rs b c"
  shows "confined rs a c"
  unfolding confined_def
proof (intro conjI allI)
  show "subtree (rs @ [''content'']) c = subtree (rs @ [''content'']) a"
    using assms by (simp add: confined_def)
next
  fix k
  let ?P = "rs @ [''public'', ''content'']"
  let ?K = "rs @ [''src'', ''assets'', ''content-catalog.json'']"
  let ?pre = "strict_prefix k ?P \<or> strict_prefix k ?K"
  from assms(1) have 1: "map_of b k = map_of a k \<or> prefix ?P k \<or> k = ?K \<or>
      (?pre \<and> map_of a k = None \<and> map_of b k = Some Dir)"
    unfolding confined_def by blast
  from assms(2) have 2: "map_of c k = map_of b k \<or> prefix ?P k \<or> k = ?K \<or>
      (?pre \<and> map_of b k = None \<and> map_of c k = Some Dir)"
    unfolding confined_def by blast
  from 1 2 show "map_of c k = map_of a k \<or> prefix ?P k \<or> k = ?K \<or>
      (?pre \<and> map_of a k = None \<and> map_of c k = Some Dir)"
    by auto
qed

lemma fresh_append_lookup:
  assumes "fresh_dirs fs [] t new"
  shows "map_of (fs @ new) k = map_of fs k \<or>
         (prefix k t \<and> k \<noteq> [] \<and> map_of fs k = None \<and> map_of (fs @ new) k = Some Dir)"
proof (cases "map_of new k")
  case None
  then show ?thesis
    by (simp add: map_add_def split: option.splits)
next
  case (Some n)
  from fresh_dirs_lookup [OF assms Some] Some show ?thesis
    by (auto simp: map_add_def)
qed

lemma clear_confined:
  assumes "REPO_ROOT dn = abs_path rs" "list_all valid_name rs"
    and "clearPublicContent dn fs = Inr fs1 \<or> clearPublicContent dn fs = Inl (e, fs1)"
  shows "confined rs fs fs1"
  unfolding confined_def
  using clear_subtree [OF assms] clear_lookup [OF assms] by blast

lemma loop_confined:
  assumes "REPO_ROOT dn = abs_path rs" "list_all valid_name rs" "list_all rel_path files"
    and "walk x [] (rs @ [''public'', ''content'']) = Inr Dir"
    and "forEach_processFile dn x cat files = Inr (y, cat') \<or>
         forEach_processFile dn x cat files = Inl (e, y)"
  shows "confined rs x y"
  unfolding confined_def
  using forEach_frame [OF assms] by (auto simp: strict_prefix_def)


lemma writeFileSync_abs:
  assumes "list_all valid_name (D @ [h])" "D \<noteq> []"
  shows "writeFileSync fs (abs_path (D @ [h])) data =
     (case walk fs [] (D @ [h]) of
        Inr Dir \<Rightarrow> Inl (EISDIR, fs)
      | Inr (File b r) \<Rightarrow> Inr (AList.update (D @ [h]) (File data r) fs)
      | Inl e \<Rightarrow>
         (if e \<noteq> ENOENT then Inl (e, fs)
          else (case walk fs [] D of
             Inr Dir \<Rightarrow> Inr (AList.update (D @ [h]) (File data True) fs)
           | Inr (File _ _) \<Rightarrow> Inl (ENOTDIR, fs)
           | Inl e' \<Rightarrow> Inl (e', fs))))"
proof -
  have st: "statSync fs (abs_path (D @ [h])) = walk fs [] (D @ [h])"
    using assms(1) by (intro statSync_abs) simp_all
  have sg: "segments (abs_path (D @ [h])) = D @ [h]"
    using assms(1) by (rule segments_abs_path)
  have tr: "\<not> trailingSeparator (abs_path (D @ [h]))"
    using assms(1) by (intro trailing_abs_path) simp_all
  show ?thesis
    unfolding writeFileSync_def st sg using tr
    by (simp split: sum.splits node.splits)
qed

lemma writeCatalog_explicit:
  assumes "REPO_ROOT dn = abs_path rs" "list_all valid_name rs"
  shows "writeCatalog dn fs cat =
     (case make_dirs fs [] (rs @ [''src'', ''assets'']) of
        Inl x \<Rightarrow> Inl x
      | Inr fs1 \<Rightarrow>
          (case walk fs1 [] ((rs @ [''src'', ''assets'']) @ [''content-catalog.json'']) of
             Inr Dir \<Rightarrow> Inl (EISDIR, fs1)
           | Inr (File b r) \<Rightarrow>
               Inr (AList.update ((rs @ [''src'', ''assets'']) @ [''content-catalog.json''])
                      (File (json_stringify cat @ [CHR 0x0A]) r) fs1)
           | Inl e \<Rightarrow>
              (if e \<noteq> ENOENT then Inl (e, fs1)
               else (case walk fs1 [] (rs @ [''src'', ''assets'']) of
                  Inr Dir \<Rightarrow>
                    Inr (AList.update ((rs @ [''src'', ''assets'']) @ [''content-catalog.json''])
                           (File (json_stringify cat @ [CHR 0x0A]) True) fs1)
                | Inr (File _ _) \<Rightarrow> Inl (ENOTDIR, fs1)
                | Inl e' \<Rightarrow> Inl (e', fs1)))))"
proof -
  let ?KD = "rs @ [''src'', ''assets'']"
  have v: "list_all valid_name (?KD @ [''content-catalog.json''])" "?KD \<noteq> []"
    using assms(2) by (simp_all add: valid_name_def)
  have c: "CATALOG_FILE dn = abs_path (?KD @ [''content-catalog.json''])"
    using constants(3) [OF assms] by simp
  have d: "path_dirname (abs_path (?KD @ [''content-catalog.json''])) = abs_path ?KD"
    using v(1) by (rule path_dirname_abs)
  have e: "ensureDirSync fs (abs_path ?KD) = make_dirs fs [] ?KD"
    using v(1) by (intro ensureDirSync_abs) simp
  show ?thesis
    unfolding writeCatalog_def writeJsonSync_def c d e writeFileSync_abs [OF v] ..
qed

lemma writeCatalog_final:
  assumes "REPO_ROOT dn = abs_path rs" "list_all valid_name rs"
    and "writeCatalog dn fs cat = Inr fs' \<or> writeCatalog dn fs cat = Inl (e, fs')"
  shows "\<exists>new. fresh_dirs fs [] (rs @ [''src'', ''assets'']) new \<and>
           (fs' = fs @ new \<or>
            (\<exists>r. fs' = AList.update ((rs @ [''src'', ''assets'']) @ [''content-catalog.json''])
                          (File (json_stringify cat @ [CHR 0x0A]) r) (fs @ new)))"
proof -
  let ?KD = "rs @ [''src'', ''assets'']"
  show ?thesis
  proof (cases "make_dirs fs [] ?KD")
    case (Inl a)
    with assms(3) have "make_dirs fs [] ?KD = Inl (e, fs')"
      unfolding writeCatalog_explicit [OF assms(1,2)] by simp
    with make_dirs_final [of fs "[]" ?KD fs' e] show ?thesis
      by auto
  next
    case (Inr fs1)
    from make_dirs_final [of fs "[]" ?KD fs1] Inr obtain new where n: "fs1 = fs @ new"
      and f: "fresh_dirs fs [] ?KD new"
      by auto
    from assms(3) Inr have "fs' = fs1 \<or>
        (\<exists>r. fs' = AList.update (?KD @ [''content-catalog.json''])
                      (File (json_stringify cat @ [CHR 0x0A]) r) fs1)"
      unfolding writeCatalog_explicit [OF assms(1,2)]
      by (auto split: sum.splits node.splits if_splits)
    with n f show ?thesis
      by blast
  qed
qed

lemma write_confined:
  assumes "REPO_ROOT dn = abs_path rs" "list_all valid_name rs"
    and "writeCatalog dn fs cat = Inr fs' \<or> writeCatalog dn fs cat = Inl (e, fs')"
  shows "confined rs fs fs'"
proof -
  let ?KD = "rs @ [''src'', ''assets'']"
  let ?K = "rs @ [''src'', ''assets'', ''content-catalog.json'']"
  from writeCatalog_final [OF assms] obtain new where f: "fresh_dirs fs [] ?KD new"
    and y: "fs' = fs @ new \<or>
            (\<exists>r. fs' = AList.update (?KD @ [''content-catalog.json''])
                          (File (json_stringify cat @ [CHR 0x0A]) r) (fs @ new))"
    by blast
  have nc: "\<not> prefix (rs @ [''content'']) k" if "prefix k ?KD" for k
    using that content_not_src [of k rs "[''assets'']"] by simp
  have s1: "subtree (rs @ [''content'']) (fs @ new) = subtree (rs @ [''content'']) fs"
    using subtree_fresh_dirs [OF f nc] by (simp add: subtree_append)
  have s2: "subtree (rs @ [''content'']) (AList.update (?KD @ [''content-catalog.json'']) v z)
      = subtree (rs @ [''content'']) z" for v z
    by (rule subtree_update) (auto simp: prefix_def append_eq_append_conv2 Cons_eq_append_conv)
  have sub: "subtree (rs @ [''content'']) fs' = subtree (rs @ [''content'']) fs"
    using y s1 s2 by auto
  have l1: "map_of (fs @ new) k = map_of fs k \<or>
      (strict_prefix k ?K \<and> map_of fs k = None \<and> map_of (fs @ new) k = Some Dir)" for k
  proof -
    have sp: "strict_prefix ?KD ?K"
      by (simp add: strict_prefix_def prefix_def)
    have pk: "strict_prefix k ?K" if "prefix k ?KD"
      using that sp by (rule prefix_order.le_less_trans)
    from fresh_append_lookup [OF f, of k] pk show ?thesis
      by blast
  qed
  have l2: "map_of fs' k = map_of (fs @ new) k \<or> k = ?K" for k
    using y by (auto simp: map_of_update simp del: map_of_append)
  have "map_of fs' k = map_of fs k \<or> k = ?K \<or>
      (strict_prefix k ?K \<and> map_of fs k = None \<and> map_of fs' k = Some Dir)" for k
    using l1 [of k] l2 [of k] by metis
  with sub show ?thesis
    unfolding confined_def by blast
qed

subsection \<open>The whole run\<close>
lemma chdir_ok:
  assumes "REPO_ROOT dn = abs_path rs" "list_all valid_name rs"
    and "process_chdir fs (REPO_ROOT dn) = Inr u"
  shows "walk fs [] rs = Inr Dir"
proof -
  from assms(3) have "statSync fs (abs_path rs) = Inr Dir"
    unfolding process_chdir_def assms(1) by (auto split: sum.splits node.splits)
  with statSync_abs_dir [OF assms(2), of fs] show ?thesis
    by simp
qed

lemma prefix_valid: "prefix k t \<Longrightarrow> list_all valid_name t \<Longrightarrow> list_all valid_name k"
  by (auto simp: prefix_def)

lemma fresh_valid: "fresh_dirs fs cur t new \<Longrightarrow> list_all valid_name t \<Longrightarrow> valid_fs new"
  unfolding fresh_dirs_def valid_fs_def
  by (induction new) (auto dest: prefix_valid)

lemma valid_fs_filter: "valid_fs fs \<Longrightarrow> valid_fs (filter Q fs)"
  by (auto simp: valid_fs_def list_all_iff)

lemma clear_valid:
  assumes "REPO_ROOT dn = abs_path rs" "list_all valid_name rs" "valid_fs fs"
    and "clearPublicContent dn fs = Inr fs1"
  shows "valid_fs fs1"
proof -
  from clear_final [OF assms(1,2), of fs fs1] assms(4) obtain new where
    n: "fs1 = filter (\<lambda>kn. \<not> prefix (rs @ [''public'', ''content'']) (fst kn)) fs @ new" and
    f: "fresh_dirs (filter (\<lambda>kn. \<not> prefix (rs @ [''public'', ''content'']) (fst kn)) fs) []
             (rs @ [''public'', ''content'']) new"
    by blast
  have "list_all valid_name (rs @ [''public'', ''content''])"
    using assms(2) by (simp add: valid_name_def)
  with f have "valid_fs new"
    by (rule fresh_valid)
  with n assms(3) show ?thesis
    by (simp add: valid_fs_append valid_fs_filter)
qed

lemma root_of_walk: "walk fs [] rs = Inr Dir \<Longrightarrow> map_of fs [] = Some Dir"
  by (rule walk_prefix_lookup [of fs rs "[]"]) simp_all

lemma main_confined:
  assumes "REPO_ROOT dn = abs_path rs" "list_all valid_name rs" "valid_fs fs"
    and "main dn fs = Inr (msg, fs') \<or> main dn fs = Inl (e, fs')"
  shows "confined rs fs fs'"
proof (cases "process_chdir fs (REPO_ROOT dn)")
  case (Inl a)
  with assms(4) have "fs' = fs"
    by (auto simp: main_def)
  then show ?thesis
    by (simp add: confined_refl)
next
  case (Inr u)
  from chdir_ok [OF assms(1,2) Inr] have root: "map_of fs [] = Some Dir"
    by (rule root_of_walk)
  show ?thesis
  proof (cases "clearPublicContent dn fs")
    case (Inl x)
    with Inr assms(4) have "clearPublicContent dn fs = Inl (e, fs')"
      by (auto simp: main_def)
    then have "clearPublicContent dn fs = Inr fs' \<or> clearPublicContent dn fs = Inl (e, fs')"
      by simp
    with assms(1,2) show ?thesis
      by (rule clear_confined)
  next
    case c: (Inr fs1)
    then have "clearPublicContent dn fs = Inr fs1 \<or> clearPublicContent dn fs = Inl (e, fs1)"
      by simp
    with assms(1,2) have c1: "confined rs fs fs1"
      by (rule clear_confined)
    have w1: "walk fs1 [] (rs @ [''public'', ''content'']) = Inr Dir"
      using assms(1,2) c root by (rule clear_Inr_dirs(1))
    have v1: "valid_fs fs1"
      using assms(1-3) c by (rule clear_valid)
    show ?thesis
    proof (cases "getContentFiles dn fs1")
      case (Inl a)
      with Inr c assms(4) have "fs' = fs1"
        by (auto simp: main_def)
      with c1 show ?thesis by simp
    next
      case g: (Inr files)
      have rp: "list_all rel_path files"
        using assms(1,2) v1 g by (rule scanned_rel_path)
      show ?thesis
      proof (cases "processFiles dn fs1 files")
        case (Inl x)
        with Inr c g assms(4) have "forEach_processFile dn fs1 [] files = Inl (e, fs')"
          by (auto simp: main_def processFiles_def)
        then have "forEach_processFile dn fs1 [] files = Inr (fs', []) \<or>
            forEach_processFile dn fs1 [] files = Inl (e, fs')"
          by simp
        from loop_confined [OF assms(1,2) rp w1 this] c1 show ?thesis
          by (rule confined_trans [rotated])
      next
        case p: (Inr r)
        obtain fs2 cat where r: "r = (fs2, cat)"
          by (cases r)
        with p have "forEach_processFile dn fs1 [] files = Inr (fs2, cat) \<or>
            forEach_processFile dn fs1 [] files = Inl (e, fs2)"
          by (simp add: processFiles_def)
        from loop_confined [OF assms(1,2) rp w1 this] c1 have c2: "confined rs fs fs2"
          by (rule confined_trans [rotated])
        from Inr c g p r assms(4) have "writeCatalog dn fs2 cat = Inr fs' \<or>
            writeCatalog dn fs2 cat = Inl (e, fs')"
          by (auto simp: main_def split: sum.splits)
        from c2 write_confined [OF assms(1,2) this] show ?thesis
          by (rule confined_trans)
      qed
    qed
  qed
qed

text \<open>
  C9, as the code behaves. Whatever the outcome of a run, the content root is left as it
  was: its entries are the same, in the same order and with the same bytes. But the
  writes are not confined to the output root and the catalog file: \<^verbatim>\<open>ensureDirSync\<close>
  also creates the directories above them that are missing (\<^verbatim>\<open>public\<close>, \<^verbatim>\<open>src\<close>,
  \<^verbatim>\<open>src/assets\<close>). A path that changes is the output root or a path below it, the
  catalog file, or such a directory, which did not exist before the run.
\<close>

theorem content_root_unchanged:
  assumes "REPO_ROOT dn = abs_path rs" "list_all valid_name rs" "valid_fs fs"
    and "main dn fs = Inr (msg, fs') \<or> main dn fs = Inl (e, fs')"
  shows "subtree (rs @ [''content'']) fs' = subtree (rs @ [''content'']) fs \<and>
         (\<forall>k. prefix (rs @ [''content'']) k \<longrightarrow> map_of fs' k = map_of fs k) \<and>
         (\<forall>k. map_of fs' k = map_of fs k \<or>
              prefix (rs @ [''public'', ''content'']) k \<or>
              k = rs @ [''src'', ''assets'', ''content-catalog.json''] \<or>
              ((strict_prefix k (rs @ [''public'', ''content'']) \<or>
                strict_prefix k (rs @ [''src'', ''assets'', ''content-catalog.json''])) \<and>
               map_of fs k = None \<and> map_of fs' k = Some Dir))"
proof -
  from main_confined [OF assms] have c: "confined rs fs fs'" .
  then have s: "subtree (rs @ [''content'']) fs' = subtree (rs @ [''content'']) fs"
    by (simp add: confined_def)
  have "map_of fs' k = map_of fs k" if "prefix (rs @ [''content'']) k" for k
    using map_of_subtree [OF that, of fs'] map_of_subtree [OF that, of fs] s by simp
  with c s show ?thesis
    unfolding confined_def by blast
qed

subsection \<open>Published copies and failing runs\<close>
lemma forEach_append:
  "forEach_processFile dn x c (xs @ ys) =
     (case forEach_processFile dn x c xs of
        Inl a \<Rightarrow> Inl a
      | Inr (x', c') \<Rightarrow> forEach_processFile dn x' c' ys)"
  by (induction xs arbitrary: x c) (auto split: sum.splits)

lemma name_ext_of_valid:
  assumes "valid_name f"
  shows "path_extname f = ext_of f"
    and "path_basename f (path_extname f) = take (length f - length (ext_of f)) f"
    and "path_basename f (path_extname f) @ path_extname f = f"
proof -
  have v: "list_all valid_name ([] @ [f])"
    using assms by simp
  show e: "path_extname f = ext_of f"
    using last_portion_rel [OF v] by (simp add: path_extname_def)
  show b: "path_basename f (path_extname f) = take (length f - length (ext_of f)) f"
    using path_basename_rel [OF v] e by simp
  show "path_basename f (path_extname f) @ path_extname f = f"
    using b e name_ext_whole [of f] by simp
qed

lemma take_append_le: "i \<le> length xs \<Longrightarrow> take i (xs @ ys) = take i xs"
  by simp

lemma take_add_append: "take (length xs + i) (xs @ ys) = xs @ take i ys"
  by simp

text \<open>
  C4. When the callback succeeds on the relative path \<open>ds/f\<close>, the bytes \<open>b\<close> it read from
  \<^verbatim>\<open><content root>/ds/f\<close> are afterwards at \<^verbatim>\<open><output root>/ds/<name>.<h><ext>\<close>, where
  \<open>h\<close> is the fingerprint of \<open>b\<close> and \<open>name\<close> and \<open>ext\<close> are the base name and the
  extension of \<open>f\<close> (together they are \<open>f\<close>); reading the published path returns \<open>b\<close>,
  and every directory from the output root down to \<open>ds\<close> exists.
\<close>

theorem published_copy:
  assumes "REPO_ROOT dn = abs_path rs" "list_all valid_name rs" "list_all valid_name (ds @ [f])"
    and "processFile dn fs cat (js_join ''/'' (ds @ [f])) = Inr (fs', cat')"
  shows "\<exists>b h. readFileSync fs (posix_join [CONTENT_DIR dn, js_join ''/'' (ds @ [f])]) = Inr b \<and>
           h = fingerprint b \<and>
           posix_join [PUBLIC_CONTENT_DIR dn, outputRel (js_join ''/'' (ds @ [f])) h]
             = abs_path (rs @ [''public'', ''content''] @ ds @ [hashedName f h]) \<and>
           hashedName f h = path_basename f (path_extname f) @ ''.'' @ h @ path_extname f \<and>
           path_basename f (path_extname f) @ path_extname f = f \<and>
           map_of fs' (rs @ [''public'', ''content''] @ ds @ [hashedName f h]) = Some (File b True) \<and>
           readFileSync fs' (posix_join [PUBLIC_CONTENT_DIR dn, outputRel (js_join ''/'' (ds @ [f])) h])
             = Inr b \<and>
           (\<forall>i \<le> length ds. map_of fs' (rs @ [''public'', ''content''] @ take i ds) = Some Dir)"
proof -
  let ?S = "rs @ [''content''] @ ds @ [f]"
  let ?D = "rs @ [''public'', ''content''] @ ds"
  from processFile_Inr [OF assms] obtain b new where
    w: "walk fs [] ?S = Inr (File b True)" and
    f': "fs' = AList.update (?D @ [hashedName f (fingerprint b)]) (File b True) (fs @ new)" and
    d: "\<forall>i \<le> length ?D. map_of (fs @ new) (take i ?D) = Some Dir"
    by blast
  let ?h = "fingerprint b"
  let ?n = "hashedName f ?h"
  have vf: "valid_name f"
    using assms(3) by simp
  have vh: "valid_name ?n"
    using vf by (rule valid_fingerprint_name)
  have vS: "list_all valid_name ?S" "?S \<noteq> []"
    using assms(2,3) by (simp_all add: valid_name_def)
  have vD: "list_all valid_name (?D @ [?n])" "?D @ [?n] \<noteq> []"
    using assms(2,3) vh by (simp_all add: valid_name_def)
  have src: "posix_join [CONTENT_DIR dn, js_join ''/'' (ds @ [f])] = abs_path ?S"
    using assms(1-3) by (rule src_path)
  have r1: "readFileSync fs (posix_join [CONTENT_DIR dn, js_join ''/'' (ds @ [f])]) = Inr b"
    unfolding src readFileSync_abs [OF vS] using w by simp
  have dest: "posix_join [PUBLIC_CONTENT_DIR dn, outputRel (js_join ''/'' (ds @ [f])) ?h]
      = abs_path (?D @ [?n])"
    using dest_path [OF assms(1-3) vh] by simp
  have k: "take i ?D \<noteq> ?D @ [?n]" for i
  proof
    assume "take i ?D = ?D @ [?n]"
    then have "length (take i ?D) = length (?D @ [?n])"
      by (rule arg_cong)
    then show False
      by simp
  qed
  have dir: "map_of fs' (take i ?D) = Some Dir" if "i \<le> length ?D" for i
    using d that k [of i] unfolding f' by (simp only: map_of_update if_False)
  have fl: "map_of fs' (?D @ [?n]) = Some (File b True)"
    unfolding f' by (simp only: map_of_update simp_thms if_True)
  have w': "walk fs' [] (?D @ [?n]) = Inr (File b True)"
  proof (rule walk_dirs_Inr)
    fix i assume "i < length (?D @ [?n])"
    then have i: "i \<le> length ?D" by simp
    then have "take i (?D @ [?n]) = take i ?D" by (rule take_append_le)
    with dir [OF i] show "map_of fs' ([] @ take i (?D @ [?n])) = Some Dir"
      by simp
  next
    show "map_of fs' ([] @ ?D @ [?n]) = Some (File b True)"
      using fl by simp
  qed
  have r2: "readFileSync fs' (abs_path (?D @ [?n])) = Inr b"
    unfolding readFileSync_abs [OF vD] using w' by simp
  have hn: "?n = path_basename f (path_extname f) @ ''.'' @ ?h @ path_extname f"
    by (simp add: hashedName_def Let_def)
  have dirs: "\<forall>i \<le> length ds. map_of fs' (rs @ [''public'', ''content''] @ take i ds) = Some Dir"
  proof (intro allI impI)
    fix i assume i: "i \<le> length ds"
    have "take (length (rs @ [''public'', ''content'']) + i) ((rs @ [''public'', ''content'']) @ ds)
        = (rs @ [''public'', ''content'']) @ take i ds"
      by (rule take_add_append)
    then have t: "take (length rs + 2 + i) ?D = rs @ [''public'', ''content''] @ take i ds"
      by simp
    have "length rs + 2 + i \<le> length ?D"
      using i by simp
    from dir [OF this] show "map_of fs' (rs @ [''public'', ''content''] @ take i ds) = Some Dir"
      unfolding t .
  qed
  have eq: "?D @ [?n] = rs @ [''public'', ''content''] @ ds @ [?n]"
    by simp
  note dest' = dest [unfolded eq]
  note fl' = fl [unfolded eq]
  note r2' = r2 [folded dest, unfolded eq]
  show ?thesis
    by (intro exI [of _ b] exI [of _ ?h] conjI r1 refl dest' hn name_ext_of_valid(3) [OF vf]
        fl' r2' dirs)
qed

lemma catalog_key_frame:
  "\<not> prefix (rs @ [''public'', ''content'']) (rs @ [''src'', ''assets'', ''content-catalog.json''])"
  "\<not> strict_prefix (rs @ [''src'', ''assets'', ''content-catalog.json'']) (rs @ [''public'', ''content''])"
  "\<not> strict_prefix (rs @ [''public'', ''content'']) (rs @ [''src'', ''assets'', ''content-catalog.json''])"
  by (auto simp: strict_prefix_def prefix_def)

text \<open>
  C7. When the callback throws on a file of the scan list, the run ends with that
  error at once: \<^verbatim>\<open>processFiles\<close> and \<^verbatim>\<open>main\<close> return it with the file system as it was
  at that moment, the result does not depend on the files that come later in the list
  (none of them is processed), and the catalog file is what it was before the run
  (\<^verbatim>\<open>writeCatalog\<close> is not reached).
\<close>

theorem fail_fast:
  assumes "REPO_ROOT dn = abs_path rs" "list_all valid_name rs" "valid_fs fs"
    and "process_chdir fs (REPO_ROOT dn) = Inr ()"
    and "clearPublicContent dn fs = Inr fs1"
    and "getContentFiles dn fs1 = Inr (before @ p # after)"
    and "forEach_processFile dn fs1 [] before = Inr (fs2, cat)"
    and "processFile dn fs2 cat p = Inl (e, fs3)"
  shows "main dn fs = Inl (e, fs3) \<and>
         (\<forall>later. processFiles dn fs1 (before @ p # later) = Inl (e, fs3)) \<and>
         map_of fs3 (rs @ [''src'', ''assets'', ''content-catalog.json''])
           = map_of fs (rs @ [''src'', ''assets'', ''content-catalog.json''])"
proof -
  let ?P = "rs @ [''public'', ''content'']"
  let ?K = "rs @ [''src'', ''assets'', ''content-catalog.json'']"
  have l: "processFiles dn fs1 (before @ p # later) = Inl (e, fs3)" for later
    using assms(7,8) by (simp add: processFiles_def forEach_append)
  have m: "main dn fs = Inl (e, fs3)"
    using assms(4-6) l [of after] by (simp add: main_def)
  have root: "map_of fs [] = Some Dir"
    using chdir_ok [OF assms(1,2,4)] by (rule root_of_walk)
  have w1: "walk fs1 [] ?P = Inr Dir"
    using assms(1,2,5) root by (rule clear_Inr_dirs(1))
  have v1: "valid_fs fs1"
    using assms(1-3,5) by (rule clear_valid)
  have rp: "list_all rel_path (before @ p # after)"
    using assms(1,2) v1 assms(6) by (rule scanned_rel_path)
  have k1: "map_of fs1 ?K = map_of fs ?K"
    using clear_lookup [OF assms(1,2), of fs fs1 e ?K] assms(5) catalog_key_frame [of rs]
    by auto
  from rp have rpb: "list_all rel_path before" and rpp: "rel_path p"
    by simp_all
  have "forEach_processFile dn fs1 [] before = Inr (fs2, cat) \<or>
      forEach_processFile dn fs1 [] before = Inl (e, fs2)"
    using assms(7) by simp
  from forEach_frame [OF assms(1,2) rpb w1 this]
  have fr: "\<forall>k. \<not> strict_prefix ?P k \<longrightarrow> map_of fs2 k = map_of fs1 k"
    by simp
  then have k2: "map_of fs2 ?K = map_of fs1 ?K"
    using catalog_key_frame(3) [of rs] by blast
  from fr have fr': "\<And>k. \<not> strict_prefix ?P k \<Longrightarrow> map_of fs2 k = map_of fs1 k"
    by blast
  have w2: "walk fs2 [] ?P = Inr Dir"
    using w1 fr' by (rule walk_public_kept)
  have "processFile dn fs2 cat p = Inr (fs3, cat) \<or> processFile dn fs2 cat p = Inl (e, fs3)"
    using assms(8) by simp
  from processFile_frame(1) [OF assms(1,2) rpp w2 this catalog_key_frame(3)]
  have "map_of fs3 ?K = map_of fs2 ?K" .
  with k1 k2 m l show ?thesis
    by simp
qed

subsection \<open>A second run\<close>
lemma not_under_src:
  assumes "c \<noteq> ''src''" "prefix k (rs @ c # zs)"
  shows "\<not> prefix (rs @ [''src'']) k"
proof
  assume "prefix (rs @ [''src'']) k"
  from this assms(2) have "prefix (rs @ [''src'']) (rs @ c # zs)"
    by (rule prefix_order.trans)
  with assms(1) show False
    by simp
qed

lemma take_not_under_src:
  "c \<noteq> ''src'' \<Longrightarrow> \<not> prefix (rs @ [''src'']) (take i (rs @ c # zs))"
  by (rule not_under_src [of c _ rs zs], assumption, rule take_is_prefix)

lemma walk_agree:
  assumes "\<And>k. \<not> prefix (rs @ [''src'']) k \<Longrightarrow> map_of x k = map_of y k" "c \<noteq> ''src''"
  shows "walk x [] (rs @ c # zs) = walk y [] (rs @ c # zs)"
proof (rule walk_cong)
  fix i
  show "map_of x ([] @ take i (rs @ c # zs)) = map_of y ([] @ take i (rs @ c # zs))"
    using assms(1) [OF take_not_under_src [OF assms(2)]] by simp
qed

lemma agree_update:
  assumes "map_of x k = map_of y k"
  shows "map_of (AList.update d v (x @ new)) k = map_of (AList.update d v (y @ new)) k"
  using assms by (simp add: map_of_update map_add_def)

lemma processFile_sim:
  assumes "REPO_ROOT dn = abs_path rs" "list_all valid_name rs" "list_all valid_name (ds @ [f])"
    and ag: "\<And>k. \<not> prefix (rs @ [''src'']) k \<Longrightarrow> map_of x k = map_of y k"
    and "processFile dn x cat (js_join ''/'' (ds @ [f])) = Inr (x', cat')"
  shows "\<exists>y'. processFile dn y cat (js_join ''/'' (ds @ [f])) = Inr (y', cat') \<and>
           (\<forall>k. \<not> prefix (rs @ [''src'']) k \<longrightarrow> map_of x' k = map_of y' k)"
proof -
  let ?S = "rs @ [''content''] @ ds @ [f]"
  let ?D = "rs @ [''public'', ''content''] @ ds"
  note ex = processFile_explicit [OF assms(1-3), of x cat]
  note ey = processFile_explicit [OF assms(1-3), of y cat]
  from assms(5) ex obtain b where w: "walk x [] ?S = Inr (File b True)"
    by (auto split: sum.splits node.splits if_splits)
  let ?h = "hashedName f (fingerprint b)"
  let ?cat = "obj_set cat (js_join ''/'' (ds @ [f])) (abs_path ([''content''] @ ds @ [?h]))"
  have wS: "walk y [] ?S = walk x [] ?S"
    using walk_agree [where c = "''content''" and zs = "ds @ [f]", OF ag] by simp
  have wD: "walk y [] ?D = walk x [] ?D"
    using walk_agree [where c = "''public''" and zs = "''content'' # ds", OF ag] by simp
  have wDh: "walk y [] (?D @ [?h]) = walk x [] (?D @ [?h])"
    using walk_agree [where c = "''public''" and zs = "''content'' # ds @ [?h]", OF ag] by simp
  from assms(5) ex w have c: "cat' = ?cat"
    by (auto split: sum.splits node.splits if_splits)
  from assms(5) ex w have inner:
    "(case walk x [] (?D @ [?h]) of
        Inl e \<Rightarrow>
          (if e \<noteq> ENOENT then Inl (e, x)
           else (case (if (case walk x [] ?D of Inl _ \<Rightarrow> False | Inr _ \<Rightarrow> True) then Inr x
                       else make_dirs x [] ?D) of
                   Inl z \<Rightarrow> Inl z
                 | Inr fs1 \<Rightarrow> Inr (AList.update (?D @ [?h]) (File b True) fs1)))
      | Inr Dir \<Rightarrow> Inl (ERR_DIR_BY_NON_DIR, x)
      | Inr (File _ _) \<Rightarrow> Inr (AList.update (?D @ [?h]) (File b True) x)) = Inr x'"
    by (auto split: sum.splits node.splits if_splits)
  let ?iy = "case walk y [] (?D @ [?h]) of
        Inl e \<Rightarrow>
          (if e \<noteq> ENOENT then Inl (e, y)
           else (case (if (case walk y [] ?D of Inl _ \<Rightarrow> False | Inr _ \<Rightarrow> True) then Inr y
                       else make_dirs y [] ?D) of
                   Inl z \<Rightarrow> Inl z
                 | Inr fs1 \<Rightarrow> Inr (AList.update (?D @ [?h]) (File b True) fs1)))
      | Inr Dir \<Rightarrow> Inl (ERR_DIR_BY_NON_DIR, y)
      | Inr (File _ _) \<Rightarrow> Inr (AList.update (?D @ [?h]) (File b True) y)"
  have "\<exists>new. x' = AList.update (?D @ [?h]) (File b True) (x @ new) \<and>
      ?iy = Inr (AList.update (?D @ [?h]) (File b True) (y @ new))"
  proof (cases "walk x [] (?D @ [?h])")
    case (Inr n)
    with inner have "x' = AList.update (?D @ [?h]) (File b True) (x @ [])"
      by (auto split: node.splits)
    moreover from Inr inner wDh have "?iy = Inr (AList.update (?D @ [?h]) (File b True) (y @ []))"
      by (auto split: node.splits)
    ultimately show ?thesis
      by blast
  next
    case (Inl err)
    with inner have en: "err = ENOENT"
      by (auto split: if_splits)
    show ?thesis
    proof (cases "walk x [] ?D")
      case (Inr n)
      with Inl en inner have "x' = AList.update (?D @ [?h]) (File b True) (x @ [])"
        by simp
      moreover from Inl en Inr wDh wD have "?iy = Inr (AList.update (?D @ [?h]) (File b True) (y @ []))"
        by simp
      ultimately show ?thesis
        by blast
    next
      case il: (Inl err2)
      with Inl en inner obtain x1 where m: "make_dirs x [] ?D = Inr x1"
        and f: "x' = AList.update (?D @ [?h]) (File b True) x1"
        by (auto split: sum.splits)
      have "\<exists>new. x1 = x @ new \<and> make_dirs y [] ?D = Inr (y @ new)"
      proof (rule make_dirs_sim [OF _ m])
        fix i
        show "map_of x ([] @ take i ?D) = map_of y ([] @ take i ?D)"
          using ag [OF take_not_under_src [of "''public''" rs i "''content'' # ds"]] by simp
      qed
      then obtain new where n: "x1 = x @ new" and my: "make_dirs y [] ?D = Inr (y @ new)"
        by blast
      from Inl en il wDh wD my have "?iy = Inr (AList.update (?D @ [?h]) (File b True) (y @ new))"
        by simp
      with f n show ?thesis
        by blast
    qed
  qed
  then obtain new where x': "x' = AList.update (?D @ [?h]) (File b True) (x @ new)"
    and iy: "?iy = Inr (AList.update (?D @ [?h]) (File b True) (y @ new))"
    by blast
  have py: "processFile dn y cat (js_join ''/'' (ds @ [f]))
      = Inr (AList.update (?D @ [?h]) (File b True) (y @ new), cat')"
    unfolding ey wS w c using iy by (simp only: sum.case node.case if_False not_True_eq_False)
  have "\<forall>k. \<not> prefix (rs @ [''src'']) k \<longrightarrow>
      map_of x' k = map_of (AList.update (?D @ [?h]) (File b True) (y @ new)) k"
    unfolding x' using agree_update [OF ag] by blast
  with py show ?thesis
    by blast
qed

lemma forEach_sim:
  assumes "REPO_ROOT dn = abs_path rs" "list_all valid_name rs" "list_all rel_path files"
    and "\<And>k. \<not> prefix (rs @ [''src'']) k \<Longrightarrow> map_of x k = map_of y k"
    and "forEach_processFile dn x cat files = Inr (x', cat')"
  shows "\<exists>y'. forEach_processFile dn y cat files = Inr (y', cat') \<and>
           (\<forall>k. \<not> prefix (rs @ [''src'']) k \<longrightarrow> map_of x' k = map_of y' k)"
  using assms(3-5)
proof (induction files arbitrary: x y cat)
  case Nil
  then show ?case by auto
next
  case (Cons p ps)
  from Cons.prems(1) have rp: "rel_path p" and rps: "list_all rel_path ps"
    by simp_all
  from rp obtain ds f where p: "p = js_join ''/'' (ds @ [f])" and v: "list_all valid_name (ds @ [f])"
    by (rule rel_pathE)
  from Cons.prems(3) obtain x1 c1 where s: "processFile dn x cat p = Inr (x1, c1)"
    and r: "forEach_processFile dn x1 c1 ps = Inr (x', cat')"
    by (auto split: sum.splits)
  from processFile_sim [OF assms(1,2) v Cons.prems(2) s [unfolded p]] obtain y1 where
    sy: "processFile dn y cat p = Inr (y1, c1)" and
    a1: "\<And>k. \<not> prefix (rs @ [''src'']) k \<Longrightarrow> map_of x1 k = map_of y1 k"
    unfolding p by blast
  from Cons.IH [OF rps a1 r] obtain y' where "forEach_processFile dn y1 c1 ps = Inr (y', cat')"
    "\<forall>k. \<not> prefix (rs @ [''src'']) k \<longrightarrow> map_of x' k = map_of y' k"
    by blast
  with sy show ?case
    by auto
qed

lemma make_dirs_existing:
  "(\<And>i. 0 < i \<Longrightarrow> i \<le> length ss \<Longrightarrow> map_of fs (cur @ take i ss) = Some Dir) \<Longrightarrow>
   make_dirs fs cur ss = Inr fs"
proof (induction ss arbitrary: cur)
  case Nil
  show ?case by simp
next
  case (Cons s ss)
  from Cons.prems [of 1] have h: "map_of fs (cur @ [s]) = Some Dir"
    by simp
  have "make_dirs fs (cur @ [s]) ss = Inr fs"
  proof (rule Cons.IH)
    fix i assume "0 < i" "i \<le> length ss"
    with Cons.prems [of "Suc i"] show "map_of fs ((cur @ [s]) @ take i ss) = Some Dir"
      by simp
  qed
  with h show ?case
    by simp
qed

lemma make_dirs_succeeds:
  "(\<And>i b r. 0 < i \<Longrightarrow> i \<le> length ss \<Longrightarrow> map_of fs (cur @ take i ss) \<noteq> Some (File b r)) \<Longrightarrow>
   \<exists>fs'. make_dirs fs cur ss = Inr fs'"
proof (induction ss arbitrary: fs cur)
  case Nil
  show ?case by simp
next
  case (Cons s ss)
  have h: "map_of fs (cur @ [s]) \<noteq> Some (File b r)" for b r
    using Cons.prems [of 1 b r] by simp
  have t: "map_of fs ((cur @ [s]) @ take i ss) \<noteq> Some (File b r)"
    if "0 < i" "i \<le> length ss" for i b r
    using Cons.prems [of "Suc i" b r] that by simp
  show ?case
  proof (cases "map_of fs (cur @ [s])")
    case None
    have "\<exists>fs'. make_dirs (fs @ [(cur @ [s], Dir)]) (cur @ [s]) ss = Inr fs'"
    proof (rule Cons.IH)
      fix i b r assume i: "0 < i" "i \<le> length ss"
      from t [OF i, of b r]
      show "map_of (fs @ [(cur @ [s], Dir)]) ((cur @ [s]) @ take i ss) \<noteq> Some (File b r)"
        by (auto simp: map_add_def split: option.splits if_splits)
    qed
    with None show ?thesis
      by simp
  next
    case (Some n)
    with h have n: "n = Dir"
      by (cases n) auto
    from t have "\<exists>fs'. make_dirs fs (cur @ [s]) ss = Inr fs'"
      by (rule Cons.IH)
    with Some n show ?thesis
      by simp
  qed
qed

lemma main_Inr_iff:
  "main dn fs = Inr (msg, fs') \<longleftrightarrow>
   (\<exists>u a1 files a2 cat.
      process_chdir fs (REPO_ROOT dn) = Inr u \<and> clearPublicContent dn fs = Inr a1 \<and>
      getContentFiles dn a1 = Inr files \<and> forEach_processFile dn a1 [] files = Inr (a2, cat) \<and>
      writeCatalog dn a2 cat = Inr fs' \<and>
      msg = ''Processed '' @ string_of_nat (length files) @
              '' files. Catalog written to '' @ CATALOG_FILE dn)"
  unfolding main_def processFiles_def by (auto split: sum.splits simp del: string_of_nat.simps)

lemma walk_prefix:
  assumes "walk x [] P = Inr Dir" "prefix k P"
  shows "walk x [] k = Inr Dir"
proof (rule walk_dirs_Inr)
  fix i assume "i < length k"
  have "prefix (take i k) P"
    using take_is_prefix assms(2) by (rule prefix_order.trans)
  with assms(1) show "map_of x ([] @ take i k) = Some Dir"
    by (simp add: walk_prefix_lookup)
next
  show "map_of x ([] @ k) = Some Dir"
    using walk_prefix_lookup [OF assms] by simp
qed

lemma chdir_walk:
  assumes "REPO_ROOT dn = abs_path rs" "list_all valid_name rs" "walk fs [] rs = Inr Dir"
  shows "process_chdir fs (REPO_ROOT dn) = Inr ()"
proof -
  from assms(3) statSync_abs_dir [OF assms(2), of fs] have "statSync fs (abs_path rs) = Inr Dir"
    by simp
  then show ?thesis
    unfolding process_chdir_def assms(1) by simp
qed

lemma processFile_valid:
  assumes "REPO_ROOT dn = abs_path rs" "list_all valid_name rs" "list_all valid_name (ds @ [f])"
    and "valid_fs x" "processFile dn x cat (js_join ''/'' (ds @ [f])) = Inr (x', cat')"
  shows "valid_fs x'"
proof -
  let ?D = "rs @ [''public'', ''content''] @ ds"
  from processFile_Inr [OF assms(1-3,5)] obtain b new where
    f: "fresh_dirs x [] ?D new" and
    x': "x' = AList.update (?D @ [hashedName f (fingerprint b)]) (File b True) (x @ new)"
    by blast
  have vD: "list_all valid_name ?D"
    using assms(2,3) by (simp add: valid_name_def)
  have vh: "valid_name (hashedName f (fingerprint b))"
    using assms(3) by (intro valid_fingerprint_name) simp
  from f vD have "valid_fs new"
    by (rule fresh_valid)
  with assms(4) have "valid_fs (x @ new)"
    by (simp add: valid_fs_append)
  moreover from vD vh have "list_all valid_name (?D @ [hashedName f (fingerprint b)])"
    by simp
  ultimately show ?thesis
    unfolding x' by (rule valid_fs_update)
qed

lemma forEach_valid:
  assumes "REPO_ROOT dn = abs_path rs" "list_all valid_name rs" "list_all rel_path files"
    and "valid_fs x" "forEach_processFile dn x cat files = Inr (x', cat')"
  shows "valid_fs x'"
  using assms(3-5)
proof (induction files arbitrary: x cat)
  case Nil
  then show ?case by simp
next
  case (Cons p ps)
  from Cons.prems(1) have rp: "rel_path p" and rps: "list_all rel_path ps"
    by simp_all
  from rp obtain ds f where p: "p = js_join ''/'' (ds @ [f])" and v: "list_all valid_name (ds @ [f])"
    by (rule rel_pathE)
  from Cons.prems(3) obtain x1 c1 where s: "processFile dn x cat p = Inr (x1, c1)"
    and r: "forEach_processFile dn x1 c1 ps = Inr (x', cat')"
    by (auto split: sum.splits)
  from processFile_valid [OF assms(1,2) v Cons.prems(2) s [unfolded p]] have "valid_fs x1" .
  from Cons.IH [OF rps this r] show ?case .
qed

lemma write_valid:
  assumes "REPO_ROOT dn = abs_path rs" "list_all valid_name rs" "valid_fs x"
    and "writeCatalog dn x cat = Inr x'"
  shows "valid_fs x'"
proof -
  let ?KD = "rs @ [''src'', ''assets'']"
  from assms(4) have "writeCatalog dn x cat = Inr x' \<or> writeCatalog dn x cat = Inl (ENOENT, x')"
    by simp
  from writeCatalog_final [OF assms(1,2) this] obtain new where f: "fresh_dirs x [] ?KD new"
    and y: "x' = x @ new \<or>
            (\<exists>r. x' = AList.update (?KD @ [''content-catalog.json''])
                          (File (json_stringify cat @ [CHR 0x0A]) r) (x @ new))"
    by blast
  have vK: "list_all valid_name ?KD" "list_all valid_name (?KD @ [''content-catalog.json''])"
    using assms(2) by (simp_all add: valid_name_def)
  from f vK(1) have "valid_fs new"
    by (rule fresh_valid)
  with assms(3) have "valid_fs (x @ new)"
    by (simp add: valid_fs_append)
  with y vK(2) show ?thesis
    by (auto intro: valid_fs_update)
qed

lemma write_Inr:
  assumes "REPO_ROOT dn = abs_path rs" "list_all valid_name rs"
    and "writeCatalog dn x cat = Inr x'"
  shows "\<exists>r new. fresh_dirs x [] (rs @ [''src'', ''assets'']) new \<and>
           x' = AList.update ((rs @ [''src'', ''assets'']) @ [''content-catalog.json''])
                  (File (json_stringify cat @ [CHR 0x0A]) r) (x @ new) \<and>
           walk x' [] ((rs @ [''src'', ''assets'']) @ [''content-catalog.json''])
             = Inr (File (json_stringify cat @ [CHR 0x0A]) r)"
proof -
  let ?KD = "rs @ [''src'', ''assets'']"
  let ?K = "?KD @ [''content-catalog.json'']"
  let ?j = "json_stringify cat @ [CHR 0x0A]"
  note e = writeCatalog_explicit [OF assms(1,2), of x cat]
  from assms(3) e obtain x1 where m: "make_dirs x [] ?KD = Inr x1"
    by (auto split: sum.splits)
  from make_dirs_final [of x "[]" ?KD x1] m obtain new where n: "x1 = x @ new"
    and f: "fresh_dirs x [] ?KD new"
    by auto
  from assms(3) e m obtain r where x': "x' = AList.update ?K (File ?j r) x1"
    and d: "\<And>i. i \<le> length ?KD \<Longrightarrow> map_of x1 (take i ?KD) = Some Dir"
  proof (cases "walk x1 [] ?K")
    case (Inr nd)
    with assms(3) e m obtain b r where nd: "nd = File b r" and x': "x' = AList.update ?K (File ?j r) x1"
      by (cases nd) auto
    from Inr have "map_of x1 (take i ?KD) = Some Dir" if "i \<le> length ?KD" for i
      using that by (rule take_prefix_dirs)
    with x' that show thesis
      by blast
  next
    case (Inl er)
    with assms(3) e m have en: "er = ENOENT"
      by (auto split: if_splits)
    with Inl assms(3) e m have w: "walk x1 [] ?KD = Inr Dir"
      and x': "x' = AList.update ?K (File ?j True) x1"
      by (auto split: sum.splits node.splits)
    have "map_of x1 (take i ?KD) = Some Dir" if "i \<le> length ?KD" for i
      using w by (rule walk_prefix_lookup) (rule take_is_prefix)
    with x' that show thesis
      by blast
  qed
  have "walk x' [] ?K = Inr (File ?j r)"
  proof (rule walk_dirs_Inr)
    fix i assume i: "i < length ?K"
    then have le: "i \<le> length ?KD"
      by simp
    then have e1: "take i ?K = take i ?KD"
      by (rule take_append_le)
    from i have "length (take i ?K) \<noteq> length ?K"
      by simp
    then have ne: "take i ?K \<noteq> ?K"
      by metis
    have "map_of x' (take i ?K) = map_of x1 (take i ?K)"
      unfolding x' using ne by (simp only: map_of_update if_False)
    also have "\<dots> = Some Dir"
      unfolding e1 using le by (rule d)
    finally show "map_of x' ([] @ take i ?K) = Some Dir"
      by simp
  next
    show "map_of x' ([] @ ?K) = Some (File ?j r)"
      unfolding x' by (simp add: map_of_update)
  qed
  with x' n f show ?thesis
    by blast
qed

lemma write_again:
  assumes "REPO_ROOT dn = abs_path rs" "list_all valid_name rs"
    and "walk x [] ((rs @ [''src'', ''assets'']) @ [''content-catalog.json''])
           = Inr (File (json_stringify cat @ [CHR 0x0A]) r)"
  shows "writeCatalog dn x cat
           = Inr (AList.update ((rs @ [''src'', ''assets'']) @ [''content-catalog.json''])
                    (File (json_stringify cat @ [CHR 0x0A]) r) x)"
proof -
  let ?KD = "rs @ [''src'', ''assets'']"
  have m: "make_dirs x [] ?KD = Inr x"
  proof (rule make_dirs_existing)
    fix i assume "0 < i" "i \<le> length ?KD"
    with take_prefix_dirs [OF assms(3), of i] show "map_of x ([] @ take i ?KD) = Some Dir"
      by simp
  qed
  show ?thesis
    unfolding writeCatalog_explicit [OF assms(1,2)] m sum.case assms(3)
    by (simp only: sum.case node.case)
qed

lemma write_frame:
  assumes "REPO_ROOT dn = abs_path rs" "list_all valid_name rs"
    and "writeCatalog dn x cat = Inr x'" "walk x [] rs = Inr Dir"
    and "\<not> prefix (rs @ [''src'']) k"
  shows "map_of x' k = map_of x k"
proof -
  let ?KD = "rs @ [''src'', ''assets'']"
  let ?K = "?KD @ [''content-catalog.json'']"
  from write_Inr [OF assms(1-3)] obtain r new where f: "fresh_dirs x [] ?KD new"
    and x': "x' = AList.update ?K (File (json_stringify cat @ [CHR 0x0A]) r) (x @ new)"
    by blast
  have kK: "k \<noteq> ?K"
    using assms(5) by auto
  have "map_of (x @ new) k = map_of x k"
  proof (cases "prefix k ?KD \<and> map_of x k = None")
    case False
    with fresh_append_lookup [OF f, of k] show ?thesis
      by metis
  next
    case True
    with assms(5) have "prefix k rs"
      by (auto simp: prefix_def append_eq_append_conv2 Cons_eq_append_conv)
    from walk_prefix_lookup [OF assms(4) this] True show ?thesis
      by simp
  qed
  with kK show ?thesis
    unfolding x' by (simp only: map_of_update if_False)
qed

lemma readFileSync_cong:
  assumes "map_of x = map_of y"
  shows "readFileSync x p = readFileSync y p"
proof -
  have "walk x [] (segments p) = walk y [] (segments p)"
    by (rule walk_cong) (simp add: assms)
  then show ?thesis
    by (simp add: readFileSync_def statSync_def)
qed

lemma under_src_cases:
  "prefix (rs @ [''src'']) k \<Longrightarrow>
     \<not> prefix (rs @ [''public'', ''content'']) k \<and> \<not> strict_prefix k (rs @ [''public'', ''content''])"
  by (auto simp: prefix_def strict_prefix_def append_eq_append_conv2 Cons_eq_append_conv)

lemma below_or_above:
  "prefix P k \<Longrightarrow> k = P \<or> strict_prefix P k"
  by (auto simp: strict_prefix_def)


text \<open>
  C2. When a run succeeds, a second run on the file system it leaves succeeds too, logs
  the same line, and leaves every path as the first run left it: the output root has the
  same directories and the same published files, under the same names and with the same
  bytes, and reading the catalog file returns the same bytes.
\<close>

theorem second_run_same:
  assumes "REPO_ROOT dn = abs_path rs" "list_all valid_name rs" "valid_fs fs"
    and "main dn fs = Inr (msg, fs1)"
  shows "\<exists>fs2. main dn fs1 = Inr (msg, fs2) \<and> map_of fs2 = map_of fs1 \<and>
           readFileSync fs2 (CATALOG_FILE dn) = readFileSync fs1 (CATALOG_FILE dn)"
proof -
  let ?P = "rs @ [''public'', ''content'']"
  let ?C = "rs @ [''content'']"
  let ?S = "rs @ [''src'']"
  let ?K = "(rs @ [''src'', ''assets'']) @ [''content-catalog.json'']"
  from assms(4) obtain u a1 files a2 cat where
    ch: "process_chdir fs (REPO_ROOT dn) = Inr u" and
    cl: "clearPublicContent dn fs = Inr a1" and
    sc: "getContentFiles dn a1 = Inr files" and
    lp: "forEach_processFile dn a1 [] files = Inr (a2, cat)" and
    wr: "writeCatalog dn a2 cat = Inr fs1" and
    msg: "msg = ''Processed '' @ string_of_nat (length files) @
              '' files. Catalog written to '' @ CATALOG_FILE dn"
    unfolding main_Inr_iff by blast
  have PS: "\<not> prefix ?S k" if "prefix k ?P" for k
    using that not_under_src [of "''public''" k rs "[''content'']"] by simp
  have rsP: "prefix rs ?P"
    by simp
  txt \<open>The first run.\<close>
  from chdir_ok [OF assms(1,2) ch] have root: "map_of fs [] = Some Dir"
    by (rule root_of_walk)
  have wa1: "walk a1 [] ?P = Inr Dir"
    using assms(1,2) cl root by (rule clear_Inr_dirs(1))
  have na1: "map_of a1 k = None" if "strict_prefix ?P k" for k
    using assms(1,2) cl root that by (rule clear_Inr_dirs(2))
  have va1: "valid_fs a1"
    using assms(1-3) cl by (rule clear_valid)
  have rp: "list_all rel_path files"
    using assms(1,2) va1 sc by (rule scanned_rel_path)
  from lp have "forEach_processFile dn a1 [] files = Inr (a2, cat) \<or>
      forEach_processFile dn a1 [] files = Inl (ENOENT, a2)"
    by simp
  from forEach_frame [OF assms(1,2) rp wa1 this]
  have fa2: "\<And>k. \<not> strict_prefix ?P k \<Longrightarrow> map_of a2 k = map_of a1 k"
    and sa2: "subtree ?C a2 = subtree ?C a1"
    by blast+
  have wa2: "walk a2 [] ?P = Inr Dir"
    using wa1 fa2 by (rule walk_public_kept)
  have va2: "valid_fs a2"
    using assms(1,2) rp va1 lp by (rule forEach_valid)
  have wra2: "walk a2 [] rs = Inr Dir"
    using wa2 rsP by (rule walk_prefix)
  have f3: "map_of fs1 k = map_of a2 k" if "\<not> prefix ?S k" for k
    using assms(1,2) wr wra2 that by (rule write_frame)
  have v3: "valid_fs fs1"
    using assms(1,2) va2 wr by (rule write_valid)
  from wr have "writeCatalog dn a2 cat = Inr fs1 \<or> writeCatalog dn a2 cat = Inl (ENOENT, fs1)"
    by simp
  from write_confined [OF assms(1,2) this] have s3: "subtree ?C fs1 = subtree ?C a2"
    by (simp add: confined_def)
  from write_Inr [OF assms(1,2) wr] obtain r where
    wK: "walk fs1 [] ?K = Inr (File (json_stringify cat @ [CHR 0x0A]) r)"
    by blast
  have w3: "walk fs1 [] ?P = Inr Dir"
  proof -
    have "walk fs1 [] ?P = walk a2 [] ?P"
    proof (rule walk_cong)
      fix i
      have "\<not> prefix ?S (take i ?P)"
        by (rule PS) (rule take_is_prefix)
      then show "map_of fs1 ([] @ take i ?P) = map_of a2 ([] @ take i ?P)"
        using f3 by simp
    qed
    with wa2 show ?thesis
      by simp
  qed
  txt \<open>The second run.\<close>
  have ch2: "process_chdir fs1 (REPO_ROOT dn) = Inr ()"
    using assms(1,2) walk_prefix [OF w3 rsP] by (rule chdir_walk)
  have root1: "map_of fs1 [] = Some Dir"
    using w3 by (rule root_of_walk)
  have "\<exists>b1. make_dirs (filter (\<lambda>kn. \<not> prefix ?P (fst kn)) fs1) [] ?P = Inr b1"
  proof (rule make_dirs_succeeds)
    fix i b r'
    show "map_of (filter (\<lambda>kn. \<not> prefix ?P (fst kn)) fs1) ([] @ take i ?P) \<noteq> Some (File b r')"
      using walk_prefix_lookup [OF w3 take_is_prefix, of i]
      by (simp add: map_of_filter_key)
  qed
  then obtain b1 where cl2: "clearPublicContent dn fs1 = Inr b1"
    unfolding clearPublicContent_explicit [OF assms(1,2)] by blast
  have wb1: "walk b1 [] ?P = Inr Dir"
    using assms(1,2) cl2 root1 by (rule clear_Inr_dirs(1))
  have nb1: "map_of b1 k = None" if "strict_prefix ?P k" for k
    using assms(1,2) cl2 root1 that by (rule clear_Inr_dirs(2))
  from cl2 have cl2': "clearPublicContent dn fs1 = Inr b1 \<or> clearPublicContent dn fs1 = Inl (ENOENT, b1)"
    by simp
  note lb1 = clear_lookup [OF assms(1,2) cl2']
  have sb1: "subtree ?C b1 = subtree ?C fs1"
    using assms(1,2) cl2' by (rule clear_subtree)
  have b1fs1: "map_of b1 k = map_of fs1 k" if "\<not> prefix ?P k" "\<not> strict_prefix k ?P" for k
    using lb1 [of k] that by blast
  have ag1: "map_of a1 k = map_of b1 k" if "\<not> prefix ?S k" for k
  proof -
    consider "strict_prefix ?P k" | "prefix k ?P" | "\<not> prefix ?P k" "\<not> prefix k ?P"
      using below_or_above [of ?P k] by blast
    then show ?thesis
    proof cases
      case 1
      then show ?thesis
        by (simp only: na1 nb1)
    next
      case 2
      from walk_prefix_lookup [OF wa1 2] walk_prefix_lookup [OF wb1 2] show ?thesis
        by simp
    next
      case 3
      then have n: "\<not> strict_prefix ?P k" "\<not> strict_prefix k ?P"
        by (simp_all add: strict_prefix_def)
      have "map_of b1 k = map_of fs1 k"
        using 3(1) n(2) by (rule b1fs1)
      also have "\<dots> = map_of a2 k"
        using that by (rule f3)
      also have "\<dots> = map_of a1 k"
        using n(1) by (rule fa2)
      finally show ?thesis
        by simp
    qed
  qed
  have sc2: "getContentFiles dn b1 = Inr files"
  proof -
    have "walk b1 [] ?C = walk a1 [] ?C"
      using walk_agree [where c = "''content''" and zs = "[]" and rs = rs and x = b1 and y = a1]
        ag1 by simp
    moreover have "subtree ?C b1 = subtree ?C a1"
      using sb1 s3 sa2 by simp
    ultimately have "getContentFiles dn b1 = getContentFiles dn a1"
      by (rule getContentFiles_cong [OF assms(1,2)])
    with sc show ?thesis
      by simp
  qed
  from forEach_sim [OF assms(1,2) rp ag1 lp] obtain b2 where
    lp2: "forEach_processFile dn b1 [] files = Inr (b2, cat)" and
    ag2: "\<And>k. \<not> prefix ?S k \<Longrightarrow> map_of a2 k = map_of b2 k"
    by blast
  from lp2 have "forEach_processFile dn b1 [] files = Inr (b2, cat) \<or>
      forEach_processFile dn b1 [] files = Inl (ENOENT, b2)"
    by simp
  from forEach_frame [OF assms(1,2) rp wb1 this]
  have fb2: "\<And>k. \<not> strict_prefix ?P k \<Longrightarrow> map_of b2 k = map_of b1 k"
    by blast
  have eq: "map_of b2 k = map_of fs1 k" for k
  proof (cases "prefix ?S k")
    case True
    note u = under_src_cases [OF True]
    from u have "\<not> strict_prefix ?P k"
      by (simp add: strict_prefix_def)
    then have "map_of b2 k = map_of b1 k"
      by (rule fb2)
    also have "\<dots> = map_of fs1 k"
      using u by (intro b1fs1) simp_all
    finally show ?thesis .
  next
    case False
    from ag2 [OF False] f3 [OF False] show ?thesis
      by simp
  qed
  have "walk b2 [] ?K = walk fs1 [] ?K"
    by (rule walk_cong) (simp only: eq)
  with wK have wK2: "walk b2 [] ?K = Inr (File (json_stringify cat @ [CHR 0x0A]) r)"
    by simp
  let ?b3 = "AList.update ?K (File (json_stringify cat @ [CHR 0x0A]) r) b2"
  have wr2: "writeCatalog dn b2 cat = Inr ?b3"
    using assms(1,2) wK2 by (rule write_again)
  have "map_of ?b3 k = map_of fs1 k" for k
    using walk_Inr_lookup [OF wK2] eq [of k] eq [of ?K]
    by (simp add: map_of_update del: append_assoc)
  then have "map_of ?b3 = map_of fs1"
    by (rule ext)
  moreover from this have "readFileSync ?b3 (CATALOG_FILE dn) = readFileSync fs1 (CATALOG_FILE dn)"
    by (rule readFileSync_cong)
  moreover have "main dn fs1 = Inr (msg, ?b3)"
    unfolding main_Inr_iff using ch2 cl2 sc2 lp2 wr2 msg by blast
  ultimately show ?thesis
    by blast
qed

subsection \<open>Published names of distinct files\<close>
lemma last_dot_unique:
  assumes "u @ CHR ''.'' # v = u' @ CHR ''.'' # v'" "CHR ''.'' \<notin> set v" "CHR ''.'' \<notin> set v'"
  shows "u = u' \<and> v = v'"
  using assms
  by (auto simp: append_eq_append_conv2 append_eq_Cons_conv Cons_eq_append_conv)

lemma dot_split:
  assumes "CHR ''.'' \<in> set b"
  shows "\<exists>u v. b = u @ CHR ''.'' # v \<and> CHR ''.'' \<notin> set v \<and> last_dot b = Some (length u)"
proof -
  let ?Q = "\<lambda>c. c \<noteq> CHR ''.''"
  let ?tw = "takeWhile ?Q (rev b)"
  let ?dw = "dropWhile ?Q (rev b)"
  have r: "rev b = ?tw @ ?dw"
    by simp
  have "?dw \<noteq> []"
    using assms by (auto simp: dropWhile_eq_Nil_conv)
  moreover from this have "\<not> ?Q (hd ?dw)"
    by (rule hd_dropWhile)
  ultimately obtain rest where d: "?dw = CHR ''.'' # rest"
    by (cases ?dw) auto
  have "b = rev (rev b)"
    by simp
  also have "\<dots> = rev rest @ CHR ''.'' # rev ?tw"
    by (subst r) (simp add: d)
  finally have b: "b = rev rest @ CHR ''.'' # rev ?tw" .
  have nd: "CHR ''.'' \<notin> set (rev ?tw)"
    using set_takeWhileD [of "CHR ''.''" ?Q "rev b"] by auto
  have "length b = length rest + 1 + length ?tw"
    by (subst b) simp
  then have "last_dot b = Some (length (rev rest))"
    using assms by (simp add: last_dot_def)
  with b nd show ?thesis
    by blast
qed

lemma ext_of_dot:
  assumes "ext_of b \<noteq> []"
  shows "\<exists>e. ext_of b = CHR ''.'' # e \<and> CHR ''.'' \<notin> set e"
proof -
  from assms have "CHR ''.'' \<in> set b"
    by (auto simp: ext_of_def last_dot_def split: if_splits)
  from dot_split [OF this] obtain u v where b: "b = u @ CHR ''.'' # v"
    and v: "CHR ''.'' \<notin> set v" and l: "last_dot b = Some (length u)"
    by blast
  from assms l have "ext_of b = drop (length u) b"
    by (auto simp: ext_of_def split: if_splits)
  also have "\<dots> = CHR ''.'' # v"
    by (subst b) simp
  finally show ?thesis
    using v by blast
qed

lemma ext_of_Nil:
  assumes "ext_of b = []" "b \<noteq> ''..''"
  shows "CHR ''.'' \<notin> set (tl b)"
proof (cases "CHR ''.'' \<in> set b")
  case False
  then show ?thesis
    by (cases b) auto
next
  case True
  from dot_split [OF this] obtain u v where b: "b = u @ CHR ''.'' # v"
    and v: "CHR ''.'' \<notin> set v" and l: "last_dot b = Some (length u)"
    by blast
  have "drop (length u) b \<noteq> []"
    by (subst b) simp
  with assms l have "u = []"
    by (auto simp: ext_of_def split: if_splits)
  with b v show ?thesis
    by simp
qed

lemma hashedName_inj:
  assumes "valid_name f" "valid_name f'" "CHR ''.'' \<notin> set h" "CHR ''.'' \<notin> set h'"
    and "hashedName f h = hashedName f' h'"
  shows "f = f' \<and> h = h'"
proof -
  let ?n = "take (length f - length (ext_of f)) f"
  let ?n' = "take (length f' - length (ext_of f')) f'"
  have e: "?n @ CHR ''.'' # (h @ ext_of f) = ?n' @ CHR ''.'' # (h' @ ext_of f')"
    using assms(5) by (simp add: hashedName_single assms(1,2))
  have w: "?n @ ext_of f = f" "?n' @ ext_of f' = f'"
    by (rule name_ext_whole)+
  have two: "f \<noteq> ''..''" "f' \<noteq> ''..''"
    using assms(1,2) by (simp_all add: valid_name_def)
  have mixed: False
    if x: "ext_of g = []" and x': "ext_of g' \<noteq> []" and g: "g \<noteq> ''..''"
      and eq: "take (length g - length (ext_of g)) g @ CHR ''.'' # (k @ ext_of g)
           = take (length g' - length (ext_of g')) g' @ CHR ''.'' # (k' @ ext_of g')"
      and k: "CHR ''.'' \<notin> set k" "CHR ''.'' \<notin> set k'"
    for g g' k k'
  proof -
    let ?m' = "take (length g' - length (ext_of g')) g'"
    from ext_of_dot [OF x'] obtain e' where e': "ext_of g' = CHR ''.'' # e'"
      and d': "CHR ''.'' \<notin> set e'"
      by blast
    from eq x e' have "g @ CHR ''.'' # k = (?m' @ CHR ''.'' # k') @ CHR ''.'' # e'"
      by simp
    from last_dot_unique [OF this k(1) d'] have gg: "g = ?m' @ CHR ''.'' # k'"
      by simp
    from ext_of_Nil [OF x g] gg have m: "?m' = []"
      by (cases ?m') auto
    have "g' = ?m' @ ext_of g'"
      by (simp only: name_ext_whole)
    also have "\<dots> = ext_of g'"
      by (simp only: m append_Nil)
    also have "\<dots> = CHR ''.'' # e'"
      by (rule e')
    finally have "g' = CHR ''.'' # e'" .
    from ext_of_cases [of g'] x' e' obtain j where j: "0 < j" "CHR ''.'' # e' = drop j g'"
      by auto
    from j(1) obtain j' where "j = Suc j'"
      by (cases j) auto
    with j(2) \<open>g' = CHR ''.'' # e'\<close> have "CHR ''.'' # e' = drop j' e'"
      by simp
    then have "CHR ''.'' \<in> set (drop j' e')"
      by (metis list.set_intros(1))
    then have "CHR ''.'' \<in> set e'"
      by (rule in_set_dropD)
    with d' show False ..
  qed
  show ?thesis
  proof (cases "ext_of f = []")
    case True
    show ?thesis
    proof (cases "ext_of f' = []")
      case t: True
      from e True t have "?n @ CHR ''.'' # h = ?n' @ CHR ''.'' # h'"
        by simp
      from last_dot_unique [OF this assms(3,4)] w True t show ?thesis
        by simp
    next
      case False
      from mixed [OF True False two(1) e assms(3,4)] show ?thesis ..
    qed
  next
    case False
    show ?thesis
    proof (cases "ext_of f' = []")
      case True
      from mixed [OF True False two(2) e [symmetric] assms(4,3)] show ?thesis ..
    next
      case f: False
      from ext_of_dot [OF False] obtain x where x: "ext_of f = CHR ''.'' # x" "CHR ''.'' \<notin> set x"
        by blast
      from ext_of_dot [OF f] obtain x' where x': "ext_of f' = CHR ''.'' # x'" "CHR ''.'' \<notin> set x'"
        by blast
      from e x(1) x'(1) have "(?n @ CHR ''.'' # h) @ CHR ''.'' # x = (?n' @ CHR ''.'' # h') @ CHR ''.'' # x'"
        by simp
      from last_dot_unique [OF this x(2) x'(2)] have 1: "?n @ CHR ''.'' # h = ?n' @ CHR ''.'' # h'"
        and 2: "x = x'"
        by simp_all
      from last_dot_unique [OF 1 assms(3,4)] 2 x(1) x'(1) w show ?thesis
        by metis
    qed
  qed
qed

lemma fingerprint_no_dot: "CHR ''.'' \<notin> set (fingerprint b)"
  using set_fingerprint [of b] hex_no_slash_dot(2) by auto

lemma published_name_inj:
  assumes "valid_name f" "valid_name f'"
    and "P @ ds @ [hashedName f (fingerprint b)] = P @ ds' @ [hashedName f' (fingerprint b')]"
  shows "ds = ds' \<and> f = f'"
proof -
  from assms(3) have "ds = ds'" "hashedName f (fingerprint b) = hashedName f' (fingerprint b')"
    by simp_all
  with hashedName_inj [OF assms(1,2) fingerprint_no_dot fingerprint_no_dot] show ?thesis
    by blast
qed

text \<open>
  Two relative paths of the scan with the same directory name, the same base name and
  the same extension are the same path: the three parts determine the path.
\<close>

lemma same_place_same_path:
  assumes "list_all valid_name (ds @ [f])" "list_all valid_name (ds' @ [f'])"
    and "path_dirname (js_join ''/'' (ds @ [f])) = path_dirname (js_join ''/'' (ds' @ [f']))"
    and "path_extname (js_join ''/'' (ds @ [f])) = path_extname (js_join ''/'' (ds' @ [f']))"
    and "path_basename (js_join ''/'' (ds @ [f])) (path_extname (js_join ''/'' (ds @ [f])))
       = path_basename (js_join ''/'' (ds' @ [f'])) (path_extname (js_join ''/'' (ds' @ [f'])))"
  shows "js_join ''/'' (ds @ [f]) = js_join ''/'' (ds' @ [f'])"
proof -
  have e: "path_extname (js_join ''/'' (ds @ [f])) = ext_of f"
    "path_extname (js_join ''/'' (ds' @ [f'])) = ext_of f'"
    by (simp_all add: path_extname_ext_of last_portion_rel [OF assms(1)]
        last_portion_rel [OF assms(2)])
  from assms(4) e have x: "ext_of f = ext_of f'"
    by simp
  from assms(5) have "take (length f - length (ext_of f)) f = take (length f' - length (ext_of f')) f'"
    unfolding e path_basename_rel [OF assms(1)] path_basename_rel [OF assms(2)] .
  with x name_ext_whole [of f] name_ext_whole [of f'] have f: "f = f'"
    by metis
  have nd: "js_join ''/'' zs \<noteq> ''.''" if "zs \<noteq> []" "list_all valid_name zs" for zs
  proof
    assume "js_join ''/'' zs = ''.''"
    with js_split_join [OF that(1) valid_no_slash [OF that(2)]] have "zs = js_split (CHR ''/'') ''.''"
      by simp
    also have "\<dots> = [''.'']"
      by code_simp
    finally show False
      using that(2) by (simp add: valid_name_def)
  qed
  have v: "list_all valid_name ds" "list_all valid_name ds'"
    using assms(1,2) by simp_all
  have "ds = ds'"
  proof (cases "ds = []")
    case True
    with assms(3) nd [OF _ v(2)] show ?thesis
      unfolding path_dirname_rel [OF assms(1)] path_dirname_rel [OF assms(2)]
      by (auto split: if_splits)
  next
    case False
    with assms(3) nd [OF False v(1)] have n: "ds' \<noteq> []" and j: "js_join ''/'' ds = js_join ''/'' ds'"
      unfolding path_dirname_rel [OF assms(1)] path_dirname_rel [OF assms(2)]
      by (auto split: if_splits)
    have "js_split (CHR ''/'') (js_join ''/'' ds) = ds"
      using js_split_join [OF False valid_no_slash [OF v(1)]] by simp
    moreover have "js_split (CHR ''/'') (js_join ''/'' ds') = ds'"
      using js_split_join [OF n valid_no_slash [OF v(2)]] by simp
    ultimately show ?thesis
      using j by metis
  qed
  with f show ?thesis
    by simp
qed

subsection \<open>The output root after a run\<close>

lemma clear_content_walk:
  assumes "REPO_ROOT dn = abs_path rs" "list_all valid_name rs"
    and "clearPublicContent dn fs = Inr a1" "walk fs [] rs = Inr Dir"
  shows "walk a1 [] (rs @ [''content'']) = walk fs [] (rs @ [''content''])"
proof (rule walk_cong)
  fix i
  let ?k = "take i (rs @ [''content''])"
  have p: "prefix ?k (rs @ [''content''])"
    by (rule take_is_prefix)
  from assms(3) have "clearPublicContent dn fs = Inr a1 \<or> clearPublicContent dn fs = Inl (ENOENT, a1)"
    by simp
  note l = clear_lookup [OF assms(1,2) this, of ?k]
  have n: "\<not> prefix (rs @ [''public'', ''content'']) ?k"
  proof
    assume "prefix (rs @ [''public'', ''content'']) ?k"
    from this p have "prefix (rs @ [''public'', ''content'']) (rs @ [''content''])"
      by (rule prefix_order.trans)
    then show False
      by simp
  qed
  have "map_of fs ?k \<noteq> None" if "strict_prefix ?k (rs @ [''public'', ''content''])"
  proof -
    from p have "?k = rs @ [''content''] \<or> prefix ?k rs"
      by (simp only: prefix_snoc)
    moreover have "\<not> strict_prefix (rs @ [''content'']) (rs @ [''public'', ''content''])"
      by (simp add: strict_prefix_def)
    ultimately have "prefix ?k rs"
      using that by metis
    from walk_prefix_lookup [OF assms(4) this] show ?thesis
      by simp
  qed
  with l n show "map_of a1 ([] @ ?k) = map_of fs ([] @ ?k)"
    by auto
qed

lemma join_eq_split:
  "list_all valid_name (ds @ [f]) \<Longrightarrow> js_join ''/'' (ds @ [f]) = p \<Longrightarrow>
   ds @ [f] = js_split (CHR ''/'') p"
  using js_split_join [of "ds @ [f]" "CHR ''/''"] valid_no_slash [of "ds @ [f]"] by auto

lemma processFile_published:
  assumes "REPO_ROOT dn = abs_path rs" "list_all valid_name rs" "list_all valid_name (ds @ [f])"
    and "walk x [] (rs @ [''public'', ''content'']) = Inr Dir"
    and "processFile dn x cat (js_join ''/'' (ds @ [f])) = Inr (x1, c1)"
  shows "\<exists>b new.
      map_of x (rs @ [''content''] @ ds @ [f]) = Some (File b True) \<and>
      fresh_dirs x [] (rs @ [''public'', ''content''] @ ds) new \<and>
      x1 = AList.update (rs @ [''public'', ''content''] @ ds @ [hashedName f (fingerprint b)])
             (File b True) (x @ new) \<and>
      walk x1 [] (rs @ [''public'', ''content'']) = Inr Dir \<and>
      (\<forall>k. prefix (rs @ [''content'']) k \<longrightarrow> map_of x1 k = map_of x k)"
proof -
  from processFile_Inr [OF assms(1-3,5)] obtain b new where
    w: "walk x [] (rs @ [''content''] @ ds @ [f]) = Inr (File b True)" and
    f: "fresh_dirs x [] (rs @ [''public'', ''content''] @ ds) new" and
    x1: "x1 = AList.update ((rs @ [''public'', ''content''] @ ds) @ [hashedName f (fingerprint b)])
              (File b True) (x @ new)"
    by blast
  from w have s: "map_of x (rs @ [''content''] @ ds @ [f]) = Some (File b True)"
    using walk_Inr_lookup [OF w] by simp
  have rp: "rel_path (js_join ''/'' (ds @ [f]))"
    using assms(3) by (rule rel_pathI)
  from assms(5) have st: "processFile dn x cat (js_join ''/'' (ds @ [f])) = Inr (x1, c1) \<or>
      processFile dn x cat (js_join ''/'' (ds @ [f])) = Inl (ENOENT, x1)"
    by simp
  note fr = processFile_frame [OF assms(1,2) rp assms(4) st]
  have w1: "walk x1 [] (rs @ [''public'', ''content'']) = Inr Dir"
    using assms(4) fr(1) by (rule walk_public_kept)
  have "map_of x1 k = map_of x k" if "prefix (rs @ [''content'']) k" for k
    using map_of_subtree [OF that, of x1] map_of_subtree [OF that, of x] fr(2) by simp
  with s f x1 w1 show ?thesis
    by (intro exI [of _ b] exI [of _ new]) simp
qed

lemma forEach_overwrite:
  assumes "REPO_ROOT dn = abs_path rs" "list_all valid_name rs"
  shows "list_all rel_path files \<Longrightarrow> walk x [] (rs @ [''public'', ''content'']) = Inr Dir \<Longrightarrow>
    forEach_processFile dn x cat files = Inr (y, cat') \<Longrightarrow> map_of x k = Some n \<Longrightarrow>
    map_of y k = Some n \<or>
    (\<exists>ds f b. js_join ''/'' (ds @ [f]) \<in> set files \<and> list_all valid_name (ds @ [f]) \<and>
       map_of x (rs @ [''content''] @ ds @ [f]) = Some (File b True) \<and>
       k = rs @ [''public'', ''content''] @ ds @ [hashedName f (fingerprint b)] \<and>
       map_of y k = Some (File b True))"
proof (induction files arbitrary: x cat n)
  case Nil
  then show ?case by simp
next
  case (Cons p ps)
  from Cons.prems(1) have rp: "rel_path p" and rps: "list_all rel_path ps"
    by simp_all
  from rp obtain ds f where p: "p = js_join ''/'' (ds @ [f])" and v: "list_all valid_name (ds @ [f])"
    by (rule rel_pathE)
  from Cons.prems(3) obtain x1 c1 where s: "processFile dn x cat p = Inr (x1, c1)"
    and r: "forEach_processFile dn x1 c1 ps = Inr (y, cat')"
    by (auto split: sum.splits)
  let ?D = "rs @ [''public'', ''content''] @ ds"
  from processFile_published [OF assms v Cons.prems(2) s [unfolded p]] obtain b new where
    src: "map_of x (rs @ [''content''] @ ds @ [f]) = Some (File b True)" and
    x1: "x1 = AList.update (?D @ [hashedName f (fingerprint b)]) (File b True) (x @ new)" and
    w1: "walk x1 [] (rs @ [''public'', ''content'']) = Inr Dir" and
    c1: "\<And>k. prefix (rs @ [''content'']) k \<Longrightarrow> map_of x1 k = map_of x k"
    by auto
  have conv: "map_of x1 (rs @ [''content''] @ ds' @ [f']) = map_of x (rs @ [''content''] @ ds' @ [f'])"
    for ds' f'
    using c1 [of "rs @ [''content''] @ ds' @ [f']"] by simp
  have here: "p \<in> set (p # ps)"
    by simp
  show ?case
  proof (cases "k = ?D @ [hashedName f (fingerprint b)]")
    case True
    then have "map_of x1 k = Some (File b True)"
      unfolding x1 by (simp only: map_of_update simp_thms if_True)
    from Cons.IH [OF rps w1 r this] show ?thesis
    proof
      assume "map_of y k = Some (File b True)"
      with p v src True here show ?thesis
        by (intro disjI2 exI [of _ ds] exI [of _ f] exI [of _ b]) simp
    next
      assume "\<exists>ds f b. js_join ''/'' (ds @ [f]) \<in> set ps \<and> list_all valid_name (ds @ [f]) \<and>
         map_of x1 (rs @ [''content''] @ ds @ [f]) = Some (File b True) \<and>
         k = rs @ [''public'', ''content''] @ ds @ [hashedName f (fingerprint b)] \<and>
         map_of y k = Some (File b True)"
      then show ?thesis
        unfolding conv by auto
    qed
  next
    case False
    from Cons.prems(4) have "map_of (x @ new) k = Some n"
      by (rule map_of_append_Some)
    with False have "map_of x1 k = Some n"
      unfolding x1 by (simp only: map_of_update if_False)
    from Cons.IH [OF rps w1 r this] show ?thesis
      unfolding conv by auto
  qed
qed

lemma forEach_published_all:
  assumes "REPO_ROOT dn = abs_path rs" "list_all valid_name rs"
  shows "list_all rel_path files \<Longrightarrow> walk x [] (rs @ [''public'', ''content'']) = Inr Dir \<Longrightarrow>
    forEach_processFile dn x cat files = Inr (y, cat') \<Longrightarrow> p \<in> set files \<Longrightarrow>
    \<exists>ds f b. p = js_join ''/'' (ds @ [f]) \<and> list_all valid_name (ds @ [f]) \<and>
       map_of x (rs @ [''content''] @ ds @ [f]) = Some (File b True) \<and>
       map_of y (rs @ [''public'', ''content''] @ ds @ [hashedName f (fingerprint b)])
         = Some (File b True)"
proof (induction files arbitrary: x cat)
  case Nil
  then show ?case by simp
next
  case (Cons q qs)
  from Cons.prems(1) have rq: "rel_path q" and rqs: "list_all rel_path qs"
    by simp_all
  from rq obtain ds f where q: "q = js_join ''/'' (ds @ [f])" and v: "list_all valid_name (ds @ [f])"
    by (rule rel_pathE)
  from Cons.prems(3) obtain x1 c1 where s: "processFile dn x cat q = Inr (x1, c1)"
    and r: "forEach_processFile dn x1 c1 qs = Inr (y, cat')"
    by (auto split: sum.splits)
  let ?D = "rs @ [''public'', ''content''] @ ds"
  from processFile_published [OF assms v Cons.prems(2) s [unfolded q]] obtain b new where
    src: "map_of x (rs @ [''content''] @ ds @ [f]) = Some (File b True)" and
    x1: "x1 = AList.update (?D @ [hashedName f (fingerprint b)]) (File b True) (x @ new)" and
    w1: "walk x1 [] (rs @ [''public'', ''content'']) = Inr Dir" and
    c1: "\<And>k. prefix (rs @ [''content'']) k \<Longrightarrow> map_of x1 k = map_of x k"
    by auto
  have conv: "map_of x1 (rs @ [''content''] @ ds' @ [f']) = map_of x (rs @ [''content''] @ ds' @ [f'])"
    for ds' f'
    using c1 [of "rs @ [''content''] @ ds' @ [f']"] by simp
  show ?case
  proof (cases "p \<in> set qs")
    case True
    from Cons.IH [OF rqs w1 r True] show ?thesis
      unfolding conv .
  next
    case False
    with Cons.prems(4) have pq: "p = q"
      by simp
    have m1: "map_of x1 (?D @ [hashedName f (fingerprint b)]) = Some (File b True)"
      unfolding x1 by (simp only: map_of_update simp_thms if_True)
    have "map_of y (?D @ [hashedName f (fingerprint b)]) = Some (File b True)"
      using forEach_overwrite [OF assms rqs w1 r m1]
    proof
      assume "\<exists>ds' f' b'. js_join ''/'' (ds' @ [f']) \<in> set qs \<and> list_all valid_name (ds' @ [f']) \<and>
         map_of x1 (rs @ [''content''] @ ds' @ [f']) = Some (File b' True) \<and>
         ?D @ [hashedName f (fingerprint b)]
           = rs @ [''public'', ''content''] @ ds' @ [hashedName f' (fingerprint b')] \<and>
         map_of y (?D @ [hashedName f (fingerprint b)]) = Some (File b' True)"
      then obtain ds' f' b' where v': "list_all valid_name (ds' @ [f'])" and
        s': "map_of x (rs @ [''content''] @ ds' @ [f']) = Some (File b' True)" and
        e: "(rs @ [''public'', ''content'']) @ ds @ [hashedName f (fingerprint b)]
           = (rs @ [''public'', ''content'']) @ ds' @ [hashedName f' (fingerprint b')]" and
        m: "map_of y (?D @ [hashedName f (fingerprint b)]) = Some (File b' True)"
        unfolding conv by auto
      from v v' have "valid_name f" "valid_name f'"
        by simp_all
      from published_name_inj [OF this e] src s' have "b' = b"
        by simp
      with m show ?thesis
        by simp
    qed
    with pq q v src show ?thesis
      by (intro exI [of _ ds] exI [of _ f] exI [of _ b]) simp
  qed
qed

lemma forEach_published_only:
  assumes "REPO_ROOT dn = abs_path rs" "list_all valid_name rs"
  shows "list_all rel_path files \<Longrightarrow> walk x [] (rs @ [''public'', ''content'']) = Inr Dir \<Longrightarrow>
    forEach_processFile dn x cat files = Inr (y, cat') \<Longrightarrow> map_of y k = Some n \<Longrightarrow>
    map_of x k = Some n \<or>
    (\<exists>ds f b. js_join ''/'' (ds @ [f]) \<in> set files \<and> list_all valid_name (ds @ [f]) \<and>
       map_of x (rs @ [''content''] @ ds @ [f]) = Some (File b True) \<and>
       (k = rs @ [''public'', ''content''] @ ds @ [hashedName f (fingerprint b)] \<and> n = File b True \<or>
        prefix k (rs @ [''public'', ''content''] @ ds) \<and> n = Dir))"
proof (induction files arbitrary: x cat)
  case Nil
  then show ?case by simp
next
  case (Cons p ps)
  from Cons.prems(1) have rp: "rel_path p" and rps: "list_all rel_path ps"
    by simp_all
  from rp obtain ds f where p: "p = js_join ''/'' (ds @ [f])" and v: "list_all valid_name (ds @ [f])"
    by (rule rel_pathE)
  from Cons.prems(3) obtain x1 c1 where s: "processFile dn x cat p = Inr (x1, c1)"
    and r: "forEach_processFile dn x1 c1 ps = Inr (y, cat')"
    by (auto split: sum.splits)
  let ?D = "rs @ [''public'', ''content''] @ ds"
  from processFile_published [OF assms v Cons.prems(2) s [unfolded p]] obtain b new where
    src: "map_of x (rs @ [''content''] @ ds @ [f]) = Some (File b True)" and
    fr: "fresh_dirs x [] ?D new" and
    x1: "x1 = AList.update (?D @ [hashedName f (fingerprint b)]) (File b True) (x @ new)" and
    w1: "walk x1 [] (rs @ [''public'', ''content'']) = Inr Dir" and
    c1: "\<And>k. prefix (rs @ [''content'']) k \<Longrightarrow> map_of x1 k = map_of x k"
    by auto
  have conv: "map_of x1 (rs @ [''content''] @ ds' @ [f']) = map_of x (rs @ [''content''] @ ds' @ [f'])"
    for ds' f'
    using c1 [of "rs @ [''content''] @ ds' @ [f']"] by simp
  have here: "js_join ''/'' (ds @ [f]) \<in> set (p # ps)"
    using p by simp
  from Cons.IH [OF rps w1 r Cons.prems(4)] show ?case
  proof
    assume "\<exists>ds f b. js_join ''/'' (ds @ [f]) \<in> set ps \<and> list_all valid_name (ds @ [f]) \<and>
       map_of x1 (rs @ [''content''] @ ds @ [f]) = Some (File b True) \<and>
       (k = rs @ [''public'', ''content''] @ ds @ [hashedName f (fingerprint b)] \<and> n = File b True \<or>
        prefix k (rs @ [''public'', ''content''] @ ds) \<and> n = Dir)"
    then show ?thesis
      unfolding conv by auto
  next
    assume a: "map_of x1 k = Some n"
    show ?thesis
    proof (cases "k = ?D @ [hashedName f (fingerprint b)]")
      case True
      with a have "n = File b True"
        unfolding x1 by (simp only: map_of_update simp_thms if_True option.inject)
      with True here v src show ?thesis
        by (intro disjI2 exI [of _ ds] exI [of _ f] exI [of _ b]) simp
    next
      case False
      with a have an: "map_of (x @ new) k = Some n"
        unfolding x1 by (simp only: map_of_update if_False)
      from fresh_append_lookup [OF fr, of k] show ?thesis
      proof
        assume "map_of (x @ new) k = map_of x k"
        with an show ?thesis
          by simp
      next
        assume "prefix k ?D \<and> k \<noteq> [] \<and> map_of x k = None \<and> map_of (x @ new) k = Some Dir"
        with an have "prefix k ?D" "n = Dir"
          by simp_all
        with here v src show ?thesis
          by (intro disjI2 exI [of _ ds] exI [of _ f] exI [of _ b]) simp
      qed
    qed
  qed
qed

text \<open>
  C5. In a run that succeeds, \<^verbatim>\<open>clearPublicContent\<close> leaves the output root as an empty
  directory before anything is published. After the run the output root holds, for
  every file the scan of the content root returns, the published copy of that file with
  its bytes; and whatever is below the output root is such a copy or a directory on the
  way to one. Nothing else is there, whatever the output root held before the run.
\<close>

theorem output_root_exact:
  assumes "REPO_ROOT dn = abs_path rs" "list_all valid_name rs" "valid_fs fs"
    and "main dn fs = Inr (msg, fs')"
  shows "\<exists>fs1 files.
      clearPublicContent dn fs = Inr fs1 \<and>
      map_of fs1 (rs @ [''public'', ''content'']) = Some Dir \<and>
      (\<forall>k. strict_prefix (rs @ [''public'', ''content'']) k \<longrightarrow> map_of fs1 k = None) \<and>
      getContentFiles dn fs = Inr files \<and>
      map_of fs' (rs @ [''public'', ''content'']) = Some Dir \<and>
      (\<forall>p \<in> set files. \<exists>ds f b.
         p = js_join ''/'' (ds @ [f]) \<and> list_all valid_name (ds @ [f]) \<and>
         map_of fs (rs @ [''content''] @ ds @ [f]) = Some (File b True) \<and>
         map_of fs' (rs @ [''public'', ''content''] @ ds @ [hashedName f (fingerprint b)])
           = Some (File b True)) \<and>
      (\<forall>k n. strict_prefix (rs @ [''public'', ''content'']) k \<longrightarrow> map_of fs' k = Some n \<longrightarrow>
         (\<exists>ds f b. js_join ''/'' (ds @ [f]) \<in> set files \<and> list_all valid_name (ds @ [f]) \<and>
            map_of fs (rs @ [''content''] @ ds @ [f]) = Some (File b True) \<and>
            (k = rs @ [''public'', ''content''] @ ds @ [hashedName f (fingerprint b)] \<and>
               n = File b True \<or>
             prefix k (rs @ [''public'', ''content''] @ ds) \<and> n = Dir)))"
proof -
  let ?P = "rs @ [''public'', ''content'']"
  let ?C = "rs @ [''content'']"
  from assms(4) obtain u a1 files a2 cat where
    ch: "process_chdir fs (REPO_ROOT dn) = Inr u" and
    cl: "clearPublicContent dn fs = Inr a1" and
    sc: "getContentFiles dn a1 = Inr files" and
    lp: "forEach_processFile dn a1 [] files = Inr (a2, cat)" and
    wr: "writeCatalog dn a2 cat = Inr fs'"
    unfolding main_Inr_iff by blast
  note wrs = chdir_ok [OF assms(1,2) ch]
  from wrs have root: "map_of fs [] = Some Dir"
    by (rule root_of_walk)
  have wa1: "walk a1 [] ?P = Inr Dir"
    using assms(1,2) cl root by (rule clear_Inr_dirs(1))
  have na1: "map_of a1 k = None" if "strict_prefix ?P k" for k
    using assms(1,2) cl root that by (rule clear_Inr_dirs(2))
  have va1: "valid_fs a1"
    using assms(1-3) cl by (rule clear_valid)
  have rp: "list_all rel_path files"
    using assms(1,2) va1 sc by (rule scanned_rel_path)
  from cl have cl': "clearPublicContent dn fs = Inr a1 \<or> clearPublicContent dn fs = Inl (ENOENT, a1)"
    by simp
  have sub: "subtree ?C a1 = subtree ?C fs"
    using assms(1,2) cl' by (rule clear_subtree)
  have "getContentFiles dn a1 = getContentFiles dn fs"
    using assms(1,2) clear_content_walk [OF assms(1,2) cl wrs] sub by (rule getContentFiles_cong)
  with sc have sc0: "getContentFiles dn fs = Inr files"
    by simp
  have conv: "map_of a1 (rs @ [''content''] @ ds @ [f]) = map_of fs (rs @ [''content''] @ ds @ [f])" for ds f
    using map_of_subtree [of ?C "rs @ [''content''] @ ds @ [f]" a1]
      map_of_subtree [of ?C "rs @ [''content''] @ ds @ [f]" fs] sub
    by simp
  from lp have "forEach_processFile dn a1 [] files = Inr (a2, cat) \<or>
      forEach_processFile dn a1 [] files = Inl (ENOENT, a2)"
    by simp
  from forEach_frame [OF assms(1,2) rp wa1 this]
  have fa2: "\<And>k. \<not> strict_prefix ?P k \<Longrightarrow> map_of a2 k = map_of a1 k"
    by blast
  have wa2: "walk a2 [] ?P = Inr Dir"
    using wa1 fa2 by (rule walk_public_kept)
  have wra2: "walk a2 [] rs = Inr Dir"
    using wa2 by (rule walk_prefix) simp
  have f3: "map_of fs' k = map_of a2 k" if "prefix ?P k" for k
  proof -
    from that under_src_cases [of rs k] have "\<not> prefix (rs @ [''src'']) k"
      by blast
    with assms(1,2) wr wra2 show ?thesis
      by (rule write_frame)
  qed
  have f3s: "map_of fs' k = map_of a2 k" if "strict_prefix ?P k" for k
    using that by (intro f3) (simp add: strict_prefix_def)
  have 1: "map_of a1 ?P = Some Dir"
    using wa1 by (rule walk_prefix_lookup) simp
  have 2: "map_of fs' ?P = Some Dir"
    using f3 [of ?P] walk_prefix_lookup [OF wa2, of ?P] by simp
  have 3: "\<exists>ds f b. p = js_join ''/'' (ds @ [f]) \<and> list_all valid_name (ds @ [f]) \<and>
         map_of fs (rs @ [''content''] @ ds @ [f]) = Some (File b True) \<and>
         map_of fs' (rs @ [''public'', ''content''] @ ds @ [hashedName f (fingerprint b)]) = Some (File b True)"
    if "p \<in> set files" for p
  proof -
    from forEach_published_all [OF assms(1,2) rp wa1 lp that] obtain ds f b where
      "p = js_join ''/'' (ds @ [f])" "list_all valid_name (ds @ [f])"
      "map_of fs (rs @ [''content''] @ ds @ [f]) = Some (File b True)"
      "map_of a2 (rs @ [''public'', ''content''] @ ds @ [hashedName f (fingerprint b)]) = Some (File b True)"
      unfolding conv by auto
    moreover have "map_of fs' (rs @ [''public'', ''content''] @ ds @ [hashedName f (fingerprint b)])
        = map_of a2 (rs @ [''public'', ''content''] @ ds @ [hashedName f (fingerprint b)])"
      by (rule f3) simp
    ultimately show ?thesis
      by (intro exI [of _ ds] exI [of _ f] exI [of _ b]) simp
  qed
  have 4: "\<exists>ds f b. js_join ''/'' (ds @ [f]) \<in> set files \<and> list_all valid_name (ds @ [f]) \<and>
            map_of fs (rs @ [''content''] @ ds @ [f]) = Some (File b True) \<and>
            (k = rs @ [''public'', ''content''] @ ds @ [hashedName f (fingerprint b)] \<and> n = File b True \<or>
             prefix k (rs @ [''public'', ''content''] @ ds) \<and> n = Dir)"
    if k: "strict_prefix ?P k" and m: "map_of fs' k = Some n" for k n
  proof -
    from m f3s [OF k] have "map_of a2 k = Some n"
      by simp
    from forEach_published_only [OF assms(1,2) rp wa1 lp this] na1 [OF k] show ?thesis
      unfolding conv by auto
  qed
  show ?thesis
    apply (intro exI [of _ a1] exI [of _ files] conjI)
    subgoal by (rule cl)
    subgoal by (rule 1)
    subgoal using na1 by blast
    subgoal by (rule sc0)
    subgoal by (rule 2)
    subgoal using 3 by blast
    subgoal using 4 by blast
    done
qed

subsection \<open>A missing content root\<close>

lemma json_stringify_empty: "json_stringify [] = ''{}''"
  by code_simp

lemma string_of_nat_0: "string_of_nat 0 = ''0''"
  by code_simp

text \<open>
  C8, as the code behaves. When the content root does not exist, the Scanner does not
  fail: fast-glob suppresses the error of a missing directory and \<^verbatim>\<open>scanRecursive\<close> checks
  nothing itself, so the scan returns the empty list, whatever \<^verbatim>\<open>opts\<close> is. The run goes
  on as a run with no file to process: it is the change of directory, the clearing of the
  output root and the writing of the empty catalog, and it fails only where one of these
  fails. When it succeeds it reports 0 files and the catalog file holds \<^verbatim>\<open>{}\<close> and a
  line break.
\<close>

theorem missing_content_root_run:
  assumes "statSync fs (CONTENT_DIR dn) = Inl ENOENT"
  shows "scanRecursive fs (CONTENT_DIR dn) opts = Inr [] \<and>
         getContentFiles dn fs = Inr [] \<and>
         (REPO_ROOT dn = abs_path rs \<and> list_all valid_name rs \<longrightarrow>
            main dn fs =
              (case process_chdir fs (REPO_ROOT dn) of
                 Inl e \<Rightarrow> Inl (e, fs)
               | Inr _ \<Rightarrow>
              (case clearPublicContent dn fs of
                 Inl x \<Rightarrow> Inl x
               | Inr fs1 \<Rightarrow>
              (case writeCatalog dn fs1 [] of
                 Inl x \<Rightarrow> Inl x
               | Inr fs3 \<Rightarrow>
                   Inr (''Processed 0 files. Catalog written to '' @ CATALOG_FILE dn, fs3)))) \<and>
            (\<forall>msg fs'. main dn fs = Inr (msg, fs') \<longrightarrow>
               msg = ''Processed 0 files. Catalog written to '' @ CATALOG_FILE dn \<and>
               (\<exists>r. map_of fs' (rs @ [''src'', ''assets'', ''content-catalog.json''])
                      = Some (File (''{}'' @ [CHR 0x0A]) r))))"
proof -
  have w: "walk fs [] (segments (CONTENT_DIR dn)) = Inl ENOENT"
    using assms by (auto simp: statSync_def split: sum.splits node.splits if_splits)
  have sr: "scanRecursive fs (CONTENT_DIR dn) o' = Inr []" for o'
    unfolding scanRecursive_def fg_sync_def fg_walk_missing [OF w] by (simp add: unique_def)
  have g: "getContentFiles dn fs = Inr []"
    by (simp add: getContentFiles_def sr)
  have run: "main dn fs =
      (case process_chdir fs (REPO_ROOT dn) of
         Inl e \<Rightarrow> Inl (e, fs)
       | Inr _ \<Rightarrow>
      (case clearPublicContent dn fs of
         Inl x \<Rightarrow> Inl x
       | Inr fs1 \<Rightarrow>
      (case writeCatalog dn fs1 [] of
         Inl x \<Rightarrow> Inl x
       | Inr fs3 \<Rightarrow>
           Inr (''Processed 0 files. Catalog written to '' @ CATALOG_FILE dn, fs3))))"
    if r: "REPO_ROOT dn = abs_path rs" "list_all valid_name rs"
  proof (cases "process_chdir fs (REPO_ROOT dn)")
    case (Inl e)
    then show ?thesis
      by (simp add: main_def)
  next
    case (Inr u)
    note wrs = chdir_ok [OF r Inr]
    show ?thesis
    proof (cases "clearPublicContent dn fs")
      case (Inl x)
      with Inr show ?thesis
        by (simp add: main_def)
    next
      case c: (Inr fs1)
      have v: "list_all valid_name (rs @ [''content''])"
        using r(2) by (simp add: valid_name_def)
      have "segments (CONTENT_DIR dn) = rs @ [''content'']"
        unfolding constants(1) [OF r] using v by (rule segments_abs_path)
      with w have "walk fs [] (rs @ [''content'']) = Inl ENOENT"
        by simp
      with clear_content_walk [OF r c wrs] have "walk fs1 [] (rs @ [''content'']) = Inl ENOENT"
        by simp
      then have "getContentFiles dn fs1 = Inr []"
        unfolding getContentFiles_explicit [OF r] by (simp add: fg_walk_missing unique_def)
      with Inr c show ?thesis
        by (simp add: main_def processFiles_def string_of_nat_0 del: string_of_nat.simps
            split: sum.splits)
    qed
  qed
  have cat: "msg = ''Processed 0 files. Catalog written to '' @ CATALOG_FILE dn \<and>
      (\<exists>r. map_of fs' (rs @ [''src'', ''assets'', ''content-catalog.json''])
             = Some (File (''{}'' @ [CHR 0x0A]) r))"
    if r: "REPO_ROOT dn = abs_path rs" "list_all valid_name rs" and m: "main dn fs = Inr (msg, fs')"
    for msg fs'
  proof -
    from m obtain fs1 where wr: "writeCatalog dn fs1 [] = Inr fs'"
      and msg: "msg = ''Processed 0 files. Catalog written to '' @ CATALOG_FILE dn"
      unfolding run [OF r] by (auto split: sum.splits)
    from write_Inr [OF r wr] obtain r' where
      "walk fs' [] ((rs @ [''src'', ''assets'']) @ [''content-catalog.json''])
         = Inr (File (json_stringify [] @ [CHR 0x0A]) r')"
      by blast
    from walk_Inr_lookup [OF this] have
      "map_of fs' (rs @ [''src'', ''assets'', ''content-catalog.json''])
         = Some (File (''{}'' @ [CHR 0x0A]) r')"
      by (simp add: json_stringify_empty)
    with msg show ?thesis
      by blast
  qed
  from sr g run cat show ?thesis
    by blast
qed

section \<open>Runs on the example file systems\<close>

lemma example_root:
  "REPO_ROOT example_dirname = abs_path [''repo'']" "list_all valid_name [''repo'']"
  by code_simp+

subsection \<open>C4: a published copy\<close>

theorem published_copy_witness:
  "REPO_ROOT example_dirname = abs_path [''repo''] \<and>
   list_all valid_name ([''docs''] @ [''a.txt'']) \<and>
   processFile example_dirname fs_docs [] (js_join ''/'' ([''docs''] @ [''a.txt'']))
     = Inr (fs_docs_after_a, [(''docs/a.txt'', ''/content/docs/a.5d41402abc4b2a76.txt'')]) \<and>
   map_of fs_docs_after_a
     ([''repo''] @ [''public'', ''content''] @ [''docs''] @ [hashedName ''a.txt'' (fingerprint ''hello'')])
     = Some (File ''hello'' True) \<and>
   map_of fs_docs_after_a ([''repo''] @ [''public'', ''content''] @ take 1 [''docs'']) = Some Dir"
proof -
  have v: "list_all valid_name ([''docs''] @ [''a.txt''])"
    by code_simp
  have p: "processFile example_dirname fs_docs [] (js_join ''/'' ([''docs''] @ [''a.txt'']))
     = Inr (fs_docs_after_a, [(''docs/a.txt'', ''/content/docs/a.5d41402abc4b2a76.txt'')])"
    by code_simp
  have r: "readFileSync fs_docs
      (posix_join [CONTENT_DIR example_dirname, js_join ''/'' ([''docs''] @ [''a.txt''])])
      = Inr ''hello''"
    by code_simp
  from published_copy [OF example_root v p] obtain b h where
    "readFileSync fs_docs
      (posix_join [CONTENT_DIR example_dirname, js_join ''/'' ([''docs''] @ [''a.txt''])]) = Inr b"
    "h = fingerprint b"
    "map_of fs_docs_after_a ([''repo''] @ [''public'', ''content''] @ [''docs''] @ [hashedName ''a.txt'' h])
       = Some (File b True)"
    "\<forall>i \<le> length [''docs'']. map_of fs_docs_after_a ([''repo''] @ [''public'', ''content''] @ take i [''docs''])
       = Some Dir"
    by blast
  with r have "map_of fs_docs_after_a
     ([''repo''] @ [''public'', ''content''] @ [''docs''] @ [hashedName ''a.txt'' (fingerprint ''hello'')])
     = Some (File ''hello'' True)"
    and "map_of fs_docs_after_a ([''repo''] @ [''public'', ''content''] @ take 1 [''docs'']) = Some Dir"
    by auto
  with example_root(1) v p show ?thesis
    by blast
qed

subsection \<open>C7: an unreadable file stops the run\<close>

theorem fail_fast_witness:
  "valid_fs fs_locked \<and>
   process_chdir fs_locked (REPO_ROOT example_dirname) = Inr () \<and>
   clearPublicContent example_dirname fs_locked = Inr fs_locked_cleared \<and>
   getContentFiles example_dirname fs_locked_cleared = Inr ([''a.txt''] @ ''b.txt'' # [''c.txt'']) \<and>
   forEach_processFile example_dirname fs_locked_cleared [] [''a.txt'']
     = Inr (fs_locked_after_a, [(''a.txt'', ''/content/a.5d41402abc4b2a76.txt'')]) \<and>
   processFile example_dirname fs_locked_after_a
       [(''a.txt'', ''/content/a.5d41402abc4b2a76.txt'')] ''b.txt''
     = Inl (EACCES, fs_locked_after_a) \<and>
   main example_dirname fs_locked = Inl (EACCES, fs_locked_after_a) \<and>
   processFiles example_dirname fs_locked_cleared ([''a.txt''] @ ''b.txt'' # []) = Inl (EACCES, fs_locked_after_a) \<and>
   map_of fs_locked_after_a ([''repo''] @ [''src'', ''assets'', ''content-catalog.json''])
     = Some (File ''old'' True)"
proof -
  have h3: "valid_fs fs_locked"
    by code_simp
  have h4: "process_chdir fs_locked (REPO_ROOT example_dirname) = Inr ()"
    by code_simp
  have h5: "clearPublicContent example_dirname fs_locked = Inr fs_locked_cleared"
    by code_simp
  have h6: "getContentFiles example_dirname fs_locked_cleared = Inr ([''a.txt''] @ ''b.txt'' # [''c.txt''])"
    by code_simp
  have h7: "forEach_processFile example_dirname fs_locked_cleared [] [''a.txt'']
     = Inr (fs_locked_after_a, [(''a.txt'', ''/content/a.5d41402abc4b2a76.txt'')])"
    by code_simp
  have h8: "processFile example_dirname fs_locked_after_a
       [(''a.txt'', ''/content/a.5d41402abc4b2a76.txt'')] ''b.txt''
     = Inl (EACCES, fs_locked_after_a)"
    by code_simp
  have k: "map_of fs_locked ([''repo''] @ [''src'', ''assets'', ''content-catalog.json''])
     = Some (File ''old'' True)"
    by code_simp
  from fail_fast [OF example_root h3 h4 h5 h6 h7 h8] k h3 h4 h5 h6 h7 h8 show ?thesis
    by simp
qed

subsection \<open>C8: a repository without a content directory\<close>

lemma main_fs_no_content:
  "main example_dirname fs_no_content =
     Inr (''Processed 0 files. Catalog written to /repo/src/assets/content-catalog.json'',
          fs_no_content_after)"
  by code_simp

theorem missing_content_root_run_witness:
  "statSync fs_no_content (CONTENT_DIR example_dirname) = Inl ENOENT \<and>
   REPO_ROOT example_dirname = abs_path [''repo''] \<and> list_all valid_name [''repo''] \<and>
   scanRecursive fs_no_content (CONTENT_DIR example_dirname) None = Inr [] \<and>
   getContentFiles example_dirname fs_no_content = Inr [] \<and>
   main example_dirname fs_no_content =
     Inr (''Processed 0 files. Catalog written to /repo/src/assets/content-catalog.json'',
          fs_no_content_after) \<and>
   (\<exists>r. map_of fs_no_content_after ([''repo''] @ [''src'', ''assets'', ''content-catalog.json''])
          = Some (File (''{}'' @ [CHR 0x0A]) r))"
proof -
  have h: "statSync fs_no_content (CONTENT_DIR example_dirname) = Inl ENOENT"
    by code_simp
  note t = missing_content_root_run [OF h, of None "[''repo'']"]
  from t have s: "scanRecursive fs_no_content (CONTENT_DIR example_dirname) None = Inr []"
    and g: "getContentFiles example_dirname fs_no_content = Inr []"
    by blast+
  from t example_root main_fs_no_content
  have "\<exists>r. map_of fs_no_content_after ([''repo''] @ [''src'', ''assets'', ''content-catalog.json''])
          = Some (File (''{}'' @ [CHR 0x0A]) r)"
    by blast
  with h s g example_root main_fs_no_content show ?thesis
    by blast
qed

text \<open>
  The claim as stated fails on the repository without a content directory: the scan
  returns the empty list, and the whole run succeeds with an empty catalog.
\<close>

theorem missing_content_root_counterexample:
  "statSync fs_no_content (CONTENT_DIR example_dirname) = Inl ENOENT \<and>
   getContentFiles example_dirname fs_no_content = Inr [] \<and>
   main example_dirname fs_no_content =
     Inr (''Processed 0 files. Catalog written to /repo/src/assets/content-catalog.json'',
          fs_no_content_after) \<and>
   map_of fs_no_content_after [''repo'', ''src'', ''assets'', ''content-catalog.json'']
     = Some (File (''{}'' @ [CHR 0x0A]) True)"
proof -
  have "statSync fs_no_content (CONTENT_DIR example_dirname) = Inl ENOENT"
    by code_simp
  moreover have "getContentFiles example_dirname fs_no_content = Inr []"
    by code_simp
  moreover have "map_of fs_no_content_after [''repo'', ''src'', ''assets'', ''content-catalog.json'']
     = Some (File (''{}'' @ [CHR 0x0A]) True)"
    by code_simp
  ultimately show ?thesis
    using main_fs_no_content by simp
qed

subsection \<open>C9: what a run changes\<close>

lemma main_fs_docs_returns:
  "case main example_dirname fs_docs of Inl _ \<Rightarrow> False | Inr _ \<Rightarrow> True"
  by code_simp

theorem content_root_unchanged_witness:
  "REPO_ROOT example_dirname = abs_path [''repo''] \<and> valid_fs fs_docs \<and>
   (\<exists>msg fs'. main example_dirname fs_docs = Inr (msg, fs') \<and>
      subtree ([''repo''] @ [''content'']) fs' = subtree ([''repo''] @ [''content'']) fs_docs \<and>
      map_of fs' [''repo'', ''content'', ''docs'', ''a.txt''] = Some (File ''hello'' True))"
proof -
  have v: "valid_fs fs_docs"
    by code_simp
  from main_fs_docs_returns obtain msg fs' where m: "main example_dirname fs_docs = Inr (msg, fs')"
    by (cases "main example_dirname fs_docs") auto
  then have "main example_dirname fs_docs = Inr (msg, fs') \<or>
      main example_dirname fs_docs = Inl (ENOENT, fs')"
    by simp
  from content_root_unchanged [OF example_root v this]
  have s: "subtree ([''repo''] @ [''content'']) fs' = subtree ([''repo''] @ [''content'']) fs_docs"
    and l: "\<forall>k. prefix ([''repo''] @ [''content'']) k \<longrightarrow> map_of fs' k = map_of fs_docs k"
    by blast+
  have "prefix ([''repo''] @ [''content'']) [''repo'', ''content'', ''docs'', ''a.txt'']"
    by simp
  with l have "map_of fs' [''repo'', ''content'', ''docs'', ''a.txt'']
      = map_of fs_docs [''repo'', ''content'', ''docs'', ''a.txt'']"
    by blast
  also have "\<dots> = Some (File ''hello'' True)"
    by code_simp
  finally have "map_of fs' [''repo'', ''content'', ''docs'', ''a.txt''] = Some (File ''hello'' True)" .
  with example_root(1) v m s show ?thesis
    by blast
qed

text \<open>
  The claim as stated fails on the repository of \<open>fs_no_content\<close>: the run creates the
  directory \<^verbatim>\<open>/repo/src\<close>, which is neither the output root or below it nor the catalog
  file.
\<close>

theorem writes_outside_counterexample:
  "main example_dirname fs_no_content =
     Inr (''Processed 0 files. Catalog written to /repo/src/assets/content-catalog.json'',
          fs_no_content_after) \<and>
   map_of fs_no_content [''repo'', ''src''] = None \<and>
   map_of fs_no_content_after [''repo'', ''src''] = Some Dir \<and>
   segments (PUBLIC_CONTENT_DIR example_dirname) = [''repo'', ''public'', ''content''] \<and>
   segments (CATALOG_FILE example_dirname) = [''repo'', ''src'', ''assets'', ''content-catalog.json''] \<and>
   \<not> prefix [''repo'', ''public'', ''content''] [''repo'', ''src''] \<and>
   [''repo'', ''src''] \<noteq> [''repo'', ''src'', ''assets'', ''content-catalog.json'']"
proof -
  have "map_of fs_no_content [''repo'', ''src''] = None"
    by code_simp
  moreover have "map_of fs_no_content_after [''repo'', ''src''] = Some Dir"
    by code_simp
  moreover have "segments (PUBLIC_CONTENT_DIR example_dirname) = [''repo'', ''public'', ''content'']"
    by code_simp
  moreover have "segments (CATALOG_FILE example_dirname)
      = [''repo'', ''src'', ''assets'', ''content-catalog.json'']"
    by code_simp
  ultimately show ?thesis
    using main_fs_no_content by simp
qed

subsection \<open>C2: running twice\<close>

theorem second_run_same_witness:
  "REPO_ROOT example_dirname = abs_path [''repo''] \<and> valid_fs fs_docs \<and>
   (\<exists>msg fs1 fs2. main example_dirname fs_docs = Inr (msg, fs1) \<and>
      main example_dirname fs1 = Inr (msg, fs2) \<and> map_of fs2 = map_of fs1 \<and>
      readFileSync fs2 (CATALOG_FILE example_dirname) = readFileSync fs1 (CATALOG_FILE example_dirname))"
proof -
  have v: "valid_fs fs_docs"
    by code_simp
  from main_fs_docs_returns obtain msg fs1 where m: "main example_dirname fs_docs = Inr (msg, fs1)"
    by (cases "main example_dirname fs_docs") auto
  from second_run_same [OF example_root v m] obtain fs2 where
    "main example_dirname fs1 = Inr (msg, fs2)" "map_of fs2 = map_of fs1"
    "readFileSync fs2 (CATALOG_FILE example_dirname) = readFileSync fs1 (CATALOG_FILE example_dirname)"
    by blast
  with example_root(1) v m show ?thesis
    by blast
qed

subsection \<open>C5: a stale file in the output root\<close>

lemma fs_docs_scan:
  "getContentFiles example_dirname fs_docs = Inr [''copy.txt'', ''docs/a.txt'', ''docs/b.txt'']"
  by code_simp

theorem output_root_exact_witness:
  "REPO_ROOT example_dirname = abs_path [''repo''] \<and> valid_fs fs_docs \<and>
   map_of fs_docs [''repo'', ''public'', ''content'', ''old.0123456789abcdef.txt'']
     = Some (File ''stale'' True) \<and>
   (\<exists>msg fs'. main example_dirname fs_docs = Inr (msg, fs') \<and>
      map_of fs' [''repo'', ''public'', ''content'', ''old.0123456789abcdef.txt''] = None \<and>
      map_of fs' ([''repo''] @ [''public'', ''content''] @ [''docs''] @
                  [hashedName ''a.txt'' (fingerprint ''hello'')])
        = Some (File ''hello'' True))"
proof -
  let ?old = "[''repo'', ''public'', ''content'', ''old.0123456789abcdef.txt'']"
  have v: "valid_fs fs_docs"
    by code_simp
  have st: "map_of fs_docs ?old = Some (File ''stale'' True)"
    by code_simp
  from main_fs_docs_returns obtain msg fs' where m: "main example_dirname fs_docs = Inr (msg, fs')"
    by (cases "main example_dirname fs_docs") auto
  from output_root_exact [OF example_root v m] fs_docs_scan have
    pub: "\<forall>p \<in> set [''copy.txt'', ''docs/a.txt'', ''docs/b.txt'']. \<exists>ds f b.
         p = js_join ''/'' (ds @ [f]) \<and> list_all valid_name (ds @ [f]) \<and>
         map_of fs_docs ([''repo''] @ [''content''] @ ds @ [f]) = Some (File b True) \<and>
         map_of fs' ([''repo''] @ [''public'', ''content''] @ ds @ [hashedName f (fingerprint b)])
           = Some (File b True)" and
    only: "\<forall>k n. strict_prefix ([''repo''] @ [''public'', ''content'']) k \<longrightarrow> map_of fs' k = Some n \<longrightarrow>
         (\<exists>ds f b. js_join ''/'' (ds @ [f]) \<in> set [''copy.txt'', ''docs/a.txt'', ''docs/b.txt''] \<and>
            list_all valid_name (ds @ [f]) \<and>
            map_of fs_docs ([''repo''] @ [''content''] @ ds @ [f]) = Some (File b True) \<and>
            (k = [''repo''] @ [''public'', ''content''] @ ds @ [hashedName f (fingerprint b)] \<and>
               n = File b True \<or>
             prefix k ([''repo''] @ [''public'', ''content''] @ ds) \<and> n = Dir))"
    by auto
  have sp: "js_split (CHR ''/'') ''copy.txt'' = [] @ [''copy.txt'']"
    "js_split (CHR ''/'') ''docs/a.txt'' = [''docs''] @ [''a.txt'']"
    "js_split (CHR ''/'') ''docs/b.txt'' = [''docs''] @ [''b.txt'']"
    by code_simp+
  have a: "map_of fs' ([''repo''] @ [''public'', ''content''] @ [''docs''] @
                  [hashedName ''a.txt'' (fingerprint ''hello'')]) = Some (File ''hello'' True)"
  proof -
    from pub obtain ds f b where p: "''docs/a.txt'' = js_join ''/'' (ds @ [f])"
      and vn: "list_all valid_name (ds @ [f])"
      and src: "map_of fs_docs ([''repo''] @ [''content''] @ ds @ [f]) = Some (File b True)"
      and dst: "map_of fs' ([''repo''] @ [''public'', ''content''] @ ds @ [hashedName f (fingerprint b)])
           = Some (File b True)"
      by auto
    from join_eq_split [OF vn p [symmetric]] sp(2) have d: "ds = [''docs'']" "f = ''a.txt''"
      by simp_all
    have "map_of fs_docs ([''repo''] @ [''content''] @ [''docs''] @ [''a.txt'']) = Some (File ''hello'' True)"
      by code_simp
    with src d have "b = ''hello''"
      by simp
    with dst d show ?thesis
      by simp
  qed
  have o: "map_of fs' ?old = None"
  proof (cases "map_of fs' ?old")
    case (Some n)
    have "strict_prefix ([''repo''] @ [''public'', ''content'']) ?old"
      by (simp add: strict_prefix_def)
    with only Some obtain ds f b where p: "js_join ''/'' (ds @ [f]) \<in> set [''copy.txt'', ''docs/a.txt'', ''docs/b.txt'']"
      and vn: "list_all valid_name (ds @ [f])"
      and c: "?old = [''repo''] @ [''public'', ''content''] @ ds @ [hashedName f (fingerprint b)] \<or>
             prefix ?old ([''repo''] @ [''public'', ''content''] @ ds)"
      by blast
    from p consider "js_join ''/'' (ds @ [f]) = ''copy.txt''" | "js_join ''/'' (ds @ [f]) = ''docs/a.txt''"
      | "js_join ''/'' (ds @ [f]) = ''docs/b.txt''"
      by auto
    then have "ds = [] \<and> f = ''copy.txt'' \<or> ds = [''docs'']"
    proof cases
      case 1
      from join_eq_split [OF vn 1] sp(1) show ?thesis by simp
    next
      case 2
      from join_eq_split [OF vn 2] sp(2) show ?thesis by simp
    next
      case 3
      from join_eq_split [OF vn 3] sp(3) show ?thesis by simp
    qed
    then show ?thesis
    proof
      assume d: "ds = [] \<and> f = ''copy.txt''"
      have "take (length ''copy.txt'' - length (ext_of ''copy.txt'')) ''copy.txt'' = ''copy''"
        by code_simp
      then have "hashedName ''copy.txt'' (fingerprint b) = ''copy'' @ ''.'' @ fingerprint b @ ext_of ''copy.txt''"
        using hashedName_single [of "''copy.txt''" "fingerprint b"] by (simp add: valid_name_def)
      with c d show ?thesis
        by simp
    next
      assume "ds = [''docs'']"
      with c show ?thesis
        by simp
    qed
  qed simp
  from example_root(1) v st m o a show ?thesis
    by blast
qed

subsection \<open>C3 and C6: a file named \<^verbatim>\<open>__proto__\<close>\<close>

text \<open>
  C3 fails on the content root whose only file is \<^verbatim>\<open>__proto__\<close>: the scan returns the
  path, the file is processed and published, but the assignment
  \<^verbatim>\<open>catalog["__proto__"] = ...\<close> adds no key, so the catalog of the run is empty and the
  artifact is \<^verbatim>\<open>{}\<close>.
\<close>

theorem proto_key_not_in_catalog:
  "getContentFiles example_dirname fs_proto_cleared = Inr [''__proto__''] \<and>
   processFiles example_dirname fs_proto_cleared [''__proto__''] = Inr (fs_proto_published, []) \<and>
   object_keys [] = [] \<and>
   (case main example_dirname fs_proto of
      Inl _ \<Rightarrow> None
    | Inr (msg, fs') \<Rightarrow> map_of fs' (segments (CATALOG_FILE example_dirname)))
     = Some (File (''{}'' @ [CHR 0x0A]) True)"
proof -
  have "getContentFiles example_dirname fs_proto_cleared = Inr [''__proto__'']"
    by code_simp
  moreover have "processFiles example_dirname fs_proto_cleared [''__proto__'']
      = Inr (fs_proto_published, [])"
    by code_simp
  moreover have "object_keys [] = []"
    by code_simp
  moreover have "(case main example_dirname fs_proto of
      Inl _ \<Rightarrow> None
    | Inr (msg, fs') \<Rightarrow> map_of fs' (segments (CATALOG_FILE example_dirname)))
     = Some (File (''{}'' @ [CHR 0x0A]) True)"
    by code_simp
  ultimately show ?thesis
    by simp
qed

text \<open>
  C6 fails on the same file: the callback publishes it under
  \<^verbatim>\<open>__proto__.5d41402abc4b2a76\<close>, and the catalog it returns maps \<^verbatim>\<open>__proto__\<close> to nothing.
\<close>

theorem proto_file_has_no_url:
  "processFile example_dirname fs_proto_cleared [] ''__proto__'' = Inr (fs_proto_published, []) \<and>
   map_of fs_proto_published [''repo'', ''public'', ''content'', ''__proto__.5d41402abc4b2a76'']
     = Some (File ''hello'' True) \<and>
   obj_get [] ''__proto__'' = None"
proof -
  have "processFile example_dirname fs_proto_cleared [] ''__proto__'' = Inr (fs_proto_published, [])"
    by code_simp
  moreover have "map_of fs_proto_published
      [''repo'', ''public'', ''content'', ''__proto__.5d41402abc4b2a76''] = Some (File ''hello'' True)"
    by code_simp
  moreover have "obj_get [] ''__proto__'' = None"
    by code_simp
  ultimately show ?thesis
    by simp
qed

end
